theory Spec2Isabelle
  imports Main "HOL-Library.Word"
begin

unbundle bit_operations_syntax

section \<open>The afterglow firmware: data model\<close>

text \<open>
  The firmware keeps all of its data in file-scope statics. They are collected in one
  record that every operation takes and returns. The two-dimensional arrays
  \<^verbatim>\<open>sMatrixState[NUM_COL][NUM_ROW]\<close>, \<^verbatim>\<open>sGlowSteps\<close> and \<^verbatim>\<open>sMaxSubcycle\<close> are functions
  of the column and the row index; the code reads and writes them at indices below 8 only.
  The configuration \<^verbatim>\<open>sCfg\<close> is kept as the 136 bytes of the structure
  \<^verbatim>\<open>AFTERGLOW_CFG_t\<close>, because the code loads, stores, transfers and checksums it
  through a byte pointer; the fields are read at their offsets (the AVR target is
  little-endian and does not pad).
\<close>

type_synonym byte = "8 word"
type_synonym uint16_t = "16 word"
type_synonym uint32_t = "32 word"

definition NUM_COL :: nat where "NUM_COL = 8"
definition NUM_ROW :: nat where "NUM_ROW = 8"
definition AFTERGLOW_CFG_VERSION :: uint16_t where "AFTERGLOW_CFG_VERSION = 1"
definition SINGLE_UPDATE_CONS :: nat where "SINGLE_UPDATE_CONS = 2"
definition ORIG_INT :: nat where "ORIG_INT = 2000"
definition TTAG_INT_A :: nat where "TTAG_INT_A = 250"
definition TTAG_INT_B :: nat where "TTAG_INT_B = 500"
definition ORIG_CYCLES_A :: nat where "ORIG_CYCLES_A = ORIG_INT div TTAG_INT_A"
definition ORIG_CYCLES_B :: nat where "ORIG_CYCLES_B = ORIG_INT div TTAG_INT_B"
definition DEFAULT_GLOWDUR :: nat where "DEFAULT_GLOWDUR = 140"
definition GLOWDUR_CFG_SCALE :: nat where "GLOWDUR_CFG_SCALE = 10"
definition DEFAULT_BRIGHTNESS :: nat where "DEFAULT_BRIGHTNESS = 7"
definition AG_CMD_WRITE_BUF :: nat where "AG_CMD_WRITE_BUF = 32"
definition AG_CMD_CFG_DATA_READY :: string where "AG_CMD_CFG_DATA_READY = ''AGDR''"
definition AG_CMD_ACK :: string where "AG_CMD_ACK = ''AGCACK''"
definition AG_CMD_NACK :: string where "AG_CMD_NACK = ''AGCNACK''"

record state =
  sMatrixState :: "nat \<Rightarrow> nat \<Rightarrow> uint16_t"
  sTtag :: uint32_t
  sLastColMask :: byte
  sLastRowMask :: byte
  sConsistentSamples :: byte
  sLastUpdColMask :: byte
  sLastPassThroughColMask :: byte
  sLastPassThroughRowMask :: byte
  sCfg :: "byte list"
  sGlowSteps :: "nat \<Rightarrow> nat \<Rightarrow> uint16_t"
  sMaxSubcycle :: "nat \<Rightarrow> nat \<Rightarrow> byte"
  eeprom :: "nat \<Rightarrow> byte"
  serialOut :: string
  serialIn :: "byte list"
  dataOut :: "(byte \<times> byte) list"

section \<open>Brightness integrator\<close>

text \<open>
  \<^verbatim>\<open>updateMx(uint16_t *pMx, bool on, uint16_t step)\<close>. The comparison
  \<^verbatim>\<open>*pMx < (65535 - step)\<close> is done in a type wider than 16 bits (the literal 65535 does
  not fit a 16-bit \<^verbatim>\<open>int\<close>), so the difference is the mathematical one.
\<close>

definition updateMx :: "uint16_t \<Rightarrow> bool \<Rightarrow> uint16_t \<Rightarrow> uint16_t" where
  "updateMx mx on step =
     (if on
      then (if uint mx < 65535 - uint step then mx + step else 0xffff)
      else (if mx > step then mx - step else 0))"

text \<open>A sequence of updates of one counter with one step, first update first.\<close>

fun updates :: "uint16_t \<Rightarrow> bool list \<Rightarrow> uint16_t \<Rightarrow> uint16_t" where
  "updates step [] mx = mx"
| "updates step (on # ons) mx = updates step ons (updateMx mx on step)"

text \<open>The number of updates the specification names: \<open>ceil (65535 / S)\<close>.\<close>

definition saturation_updates :: "uint16_t \<Rightarrow> nat" where
  "saturation_updates step = (65535 + unat step - 1) div unat step"

text \<open>
  \<^verbatim>\<open>updateCol(uint32_t col, byte rowMask)\<close>: the loop over the rows walks the column of the
  matrix and of the glow steps and shifts the row mask; \<open>n\<close> counts the iterations
  left and \<open>r\<close> is the loop variable.
\<close>

primrec updateCol_rows ::
  "nat \<Rightarrow> nat \<Rightarrow> nat \<Rightarrow> byte \<Rightarrow> (nat \<Rightarrow> nat \<Rightarrow> uint16_t) \<Rightarrow> (nat \<Rightarrow> nat \<Rightarrow> uint16_t)
     \<Rightarrow> (nat \<Rightarrow> nat \<Rightarrow> uint16_t)" where
  "updateCol_rows 0 r col rowMask steps mx = mx"
| "updateCol_rows (Suc n) r col rowMask steps mx =
     updateCol_rows n (Suc r) col (drop_bit 1 rowMask) steps
       (mx(col := (mx col)(r := updateMx (mx col r) (rowMask AND 0x01 \<noteq> 0) (steps col r))))"

definition updateCol :: "uint32_t \<Rightarrow> byte \<Rightarrow> state \<Rightarrow> state" where
  "updateCol col rowMask s =
     (if unat col \<ge> NUM_COL then s
      else s\<lparr>sMatrixState :=
             updateCol_rows NUM_ROW 0 (unat col) rowMask (sGlowSteps s) (sMatrixState s)\<rparr>)"

section \<open>State at reset\<close>

text \<open>
  All statics are zero-initialised; the EEPROM holds what it held before the reset.
  \<open>serialOut\<close> records the characters handed to \<^verbatim>\<open>Serial.print\<close>, \<open>serialIn\<close> holds
  the bytes waiting in the receive buffer of the serial port, \<open>dataOut\<close> records the
  frames (column byte, row byte) latched into the output shift registers by
  \<^verbatim>\<open>dataOutput\<close>.
\<close>

definition power_on :: "(nat \<Rightarrow> byte) \<Rightarrow> state" where
  "power_on ee =
     \<lparr>sMatrixState = (\<lambda>c r. 0), sTtag = 0, sLastColMask = 0, sLastRowMask = 0,
      sConsistentSamples = 0, sLastUpdColMask = 0,
      sLastPassThroughColMask = 0, sLastPassThroughRowMask = 0,
      sCfg = replicate 136 0, sGlowSteps = (\<lambda>c r. 0), sMaxSubcycle = (\<lambda>c r. 0),
      eeprom = ee, serialOut = [], serialIn = [], dataOut = []\<rparr>"

section \<open>Output PWM driver\<close>

text \<open>
  \<^verbatim>\<open>dataOutput(colData, rowData)\<close> shifts the 16 bits out and latches them; the model
  records the latched frame.
\<close>

definition dataOutput :: "byte \<Rightarrow> byte \<Rightarrow> state \<Rightarrow> state" where
  "dataOutput colData rowData s = s\<lparr>dataOut := dataOut s @ [(colData, rowData)]\<rparr>"

definition driveLampMatrixPassThrough :: "state \<Rightarrow> state" where
  "driveLampMatrixPassThrough s =
     (if sLastColMask s \<noteq> sLastPassThroughColMask s \<or>
         sLastRowMask s \<noteq> sLastPassThroughRowMask s
      then (dataOutput (sLastColMask s) (sLastRowMask s) s)
             \<lparr>sLastPassThroughColMask := sLastColMask s,
              sLastPassThroughRowMask := sLastRowMask s\<rparr>
      else s)"

text \<open>
  The body of the row loop of \<^verbatim>\<open>driveLampMatrix\<close> for one lamp: the sub-cycle threshold
  \<^verbatim>\<open>*pMx / (65536 / ORIG_CYCLES)\<close> limited to \<^verbatim>\<open>*pMaxSubCycle\<close>, and the decision
  \<^verbatim>\<open>if (*pMx) ... if (subCycle >= colCycle)\<close>. Bit 2 of \<^verbatim>\<open>PINB\<close> selects the timing
  configuration. The quotients and comparisons are those of the unsigned values.
\<close>

definition lamp_subCycle :: "byte \<Rightarrow> uint16_t \<Rightarrow> byte \<Rightarrow> nat" where
  "lamp_subCycle pinb mx maxSubCycle =
     (let subCycle = (if pinb AND 0x04 \<noteq> 0
                      then unat mx div (65536 div ORIG_CYCLES_A)
                      else unat mx div (65536 div ORIG_CYCLES_B))
      in if subCycle > unat maxSubCycle then unat maxSubCycle else subCycle)"

definition lamp_on :: "byte \<Rightarrow> nat \<Rightarrow> uint16_t \<Rightarrow> byte \<Rightarrow> bool" where
  "lamp_on pinb colCycle mx maxSubCycle =
     (mx \<noteq> 0 \<and> lamp_subCycle pinb mx maxSubCycle \<ge> colCycle)"

text \<open>
  The row loop: \<open>n\<close> iterations are left, \<open>r\<close> is the loop variable; each
  iteration shifts \<^verbatim>\<open>rowData\<close> right and sets bit 7 for a lamp that is on.
\<close>

primrec driveLampMatrix_rows ::
  "nat \<Rightarrow> nat \<Rightarrow> byte \<Rightarrow> nat \<Rightarrow> (nat \<Rightarrow> uint16_t) \<Rightarrow> (nat \<Rightarrow> byte) \<Rightarrow> byte \<Rightarrow> byte" where
  "driveLampMatrix_rows 0 r pinb colCycle pMx pMaxSubCycle rowData = rowData"
| "driveLampMatrix_rows (Suc n) r pinb colCycle pMx pMaxSubCycle rowData =
     driveLampMatrix_rows n (Suc r) pinb colCycle pMx pMaxSubCycle
       (if lamp_on pinb colCycle (pMx r) (pMaxSubCycle r)
        then drop_bit 1 rowData OR 0x80 else drop_bit 1 rowData)"

text \<open>
  The frame \<^verbatim>\<open>driveLampMatrix\<close> computes from the tick counter, the matrix and the
  maximum sub-cycles, and the function itself: an all-off frame, then the computed one.
\<close>

definition driveLampMatrix_frame :: "byte \<Rightarrow> state \<Rightarrow> byte \<times> byte" where
  "driveLampMatrix_frame pinb s =
     (let outCol = unat (sTtag s) mod NUM_COL;
          colCycle = (if pinb AND 0x04 \<noteq> 0
                      then (unat (sTtag s) div NUM_COL) mod ORIG_CYCLES_A
                      else (unat (sTtag s) div NUM_COL) mod ORIG_CYCLES_B);
          colData = (push_bit outCol 1 :: byte);
          rowData = driveLampMatrix_rows NUM_ROW 0 pinb colCycle
                      (sMatrixState s outCol) (sMaxSubcycle s outCol) 0
      in (colData, rowData))"

definition driveLampMatrix :: "byte \<Rightarrow> state \<Rightarrow> state" where
  "driveLampMatrix pinb s =
     (let s1 = dataOutput 0x00 0x00 s;
          (colData, rowData) = driveLampMatrix_frame pinb s1
      in dataOutput colData rowData s1)"

text \<open>
  The number \<open>N\<close> of sub-cycles of the active timing configuration, the tick counter
  at which the driver serves column \<open>col\<close> in sub-cycle \<open>colCycle\<close> of the window
  \<open>w\<close> of \<open>N\<close> sub-cycles, and the number of sub-cycles of that window in which the
  frame computed by the driver selects the column and has the row bit \<open>r\<close> set.
\<close>

definition ORIG_CYCLES :: "byte \<Rightarrow> nat" where
  "ORIG_CYCLES pinb = (if pinb AND 0x04 \<noteq> 0 then ORIG_CYCLES_A else ORIG_CYCLES_B)"

definition window_tick :: "byte \<Rightarrow> nat \<Rightarrow> nat \<Rightarrow> nat \<Rightarrow> uint32_t" where
  "window_tick pinb w colCycle col = of_nat (NUM_COL * (ORIG_CYCLES pinb * w + colCycle) + col)"

definition lit_subcycles :: "byte \<Rightarrow> state \<Rightarrow> nat \<Rightarrow> nat \<Rightarrow> nat \<Rightarrow> nat" where
  "lit_subcycles pinb s w col r =
     length (filter
       (\<lambda>colCycle. fst (driveLampMatrix_frame pinb (s\<lparr>sTtag := window_tick pinb w colCycle col\<rparr>))
                      = 2 ^ col \<and>
                    bit (snd (driveLampMatrix_frame pinb (s\<lparr>sTtag := window_tick pinb w colCycle col\<rparr>))) r)
       [0..<ORIG_CYCLES pinb])"

section \<open>Column validator and the timer interrupt\<close>

text \<open>
  The \<^verbatim>\<open>switch (inColMask)\<close> of the interrupt handler: the decoded column \<^verbatim>\<open>inCol\<close>
  (\<^verbatim>\<open>NUM_COL\<close> when no case matches) and the value of \<^verbatim>\<open>validInput\<close> after it.
\<close>

definition decodeCol :: "byte \<Rightarrow> uint32_t \<times> bool" where
  "decodeCol inColMask =
     (if inColMask = 0x01 then (0, True)
      else if inColMask = 0x02 then (1, True)
      else if inColMask = 0x04 then (2, True)
      else if inColMask = 0x08 then (3, True)
      else if inColMask = 0x10 then (4, True)
      else if inColMask = 0x20 then (5, True)
      else if inColMask = 0x40 then (6, True)
      else if inColMask = 0x80 then (7, True)
      else (of_nat NUM_COL, False))"

text \<open>
  \<^verbatim>\<open>updateValid(inColMask, inRowMask)\<close> with its two function-local statics
  \<^verbatim>\<open>sConsistentSamples\<close> and \<^verbatim>\<open>sLastUpdColMask\<close>.
\<close>

definition updateValid :: "byte \<Rightarrow> byte \<Rightarrow> state \<Rightarrow> bool \<times> state" where
  "updateValid inColMask inRowMask s =
     (if inColMask \<noteq> sLastUpdColMask s
      then (let s1 = (if inColMask \<noteq> sLastColMask s \<or> inRowMask \<noteq> sLastRowMask s
                      then s\<lparr>sConsistentSamples := 0\<rparr>
                      else if sConsistentSamples s < 255
                      then s\<lparr>sConsistentSamples := sConsistentSamples s + 1\<rparr>
                      else s)
            in if unat (sConsistentSamples s1) \<ge> SINGLE_UPDATE_CONS - 1
               then (True, s1\<lparr>sLastUpdColMask := inColMask\<rparr>)
               else (False, s1))
      else (False, s))"

text \<open>
  \<^verbatim>\<open>ISR(TIMER1_COMPA_vect)\<close>. The handler takes the value of \<^verbatim>\<open>PINB\<close> and the frame
  \<^verbatim>\<open>inData\<close> it decodes: the result of \<^verbatim>\<open>sampleInput()\<close>, or of \<^verbatim>\<open>testModeInput()\<close>
  when the test jumper is set. The watchdog, the current measurement and the run-time
  measurement of the handler touch none of the modelled data. \<open>isr_drive\<close> is the first
  part (tick counter and lamp output), \<open>validInput\<close> the value of the local of that
  name when the handler tests it. With bit 0 of \<^verbatim>\<open>PINB\<close> set the test jumper is open and
  \<^verbatim>\<open>inData\<close> is the sampled frame; the concrete runs below use \<^verbatim>\<open>PINB = 0x09\<close> (no test
  mode, afterglow mode).
\<close>

definition isr_drive :: "byte \<Rightarrow> state \<Rightarrow> state" where
  "isr_drive pinb s =
     (let s1 = s\<lparr>sTtag := sTtag s + 1\<rparr>
      in if pinb AND 0x08 = 0 then driveLampMatrixPassThrough s1 else driveLampMatrix pinb s1)"

definition inColMask_of :: "uint16_t \<Rightarrow> byte" where
  "inColMask_of inData = ucast (drop_bit 8 inData)"

definition inRowMask_of :: "uint16_t \<Rightarrow> byte" where
  "inRowMask_of inData = NOT (ucast inData)"

definition validInput :: "byte \<Rightarrow> uint16_t \<Rightarrow> state \<Rightarrow> bool" where
  "validInput pinb inData s =
     (let s1 = isr_drive pinb s;
          inColMask = inColMask_of inData;
          inRowMask = inRowMask_of inData;
          (inCol, validDecode) = decodeCol inColMask;
          (validUpd, s2) = updateValid inColMask inRowMask s1
      in validDecode \<and> validUpd)"

definition ISR_TIMER1_COMPA :: "byte \<Rightarrow> uint16_t \<Rightarrow> state \<Rightarrow> state" where
  "ISR_TIMER1_COMPA pinb inData s =
     (let s1 = isr_drive pinb s;
          inColMask = inColMask_of inData;
          inRowMask = inRowMask_of inData;
          (inCol, validDecode) = decodeCol inColMask;
          (validUpd, s2) = updateValid inColMask inRowMask s1;
          s3 = (if validDecode \<and> validUpd then updateCol inCol inRowMask s2 else s2)
      in s3\<lparr>sLastColMask := inColMask, sLastRowMask := inRowMask\<rparr>)"

text \<open>
  A run of ticks over a list of frames, and for each tick whether its frame was
  handed to the integrator.
\<close>

fun ticks :: "byte \<Rightarrow> uint16_t list \<Rightarrow> state \<Rightarrow> state" where
  "ticks pinb [] s = s"
| "ticks pinb (inData # rest) s = ticks pinb rest (ISR_TIMER1_COMPA pinb inData s)"

fun accepted :: "byte \<Rightarrow> uint16_t list \<Rightarrow> state \<Rightarrow> bool list" where
  "accepted pinb [] s = []"
| "accepted pinb (inData # rest) s =
     validInput pinb inData s # accepted pinb rest (ISR_TIMER1_COMPA pinb inData s)"

section \<open>Configuration\<close>

text \<open>
  \<^verbatim>\<open>AFTERGLOW_CFG_t\<close> as its bytes: the version at offset 0, the reserved word at 2,
  \<^verbatim>\<open>lampGlowDur[8][8]\<close> at 4, \<^verbatim>\<open>lampBrightness[8][8]\<close> at 68 and the checksum at 132,
  multi-byte fields with the low byte first; \<open>cfgSize\<close> is \<^verbatim>\<open>sizeof(AFTERGLOW_CFG_t)\<close>.
  The two arrays are read with the flat index \<open>8 * col + row\<close>, as the code walks them
  with a pointer.
\<close>

definition cfgSize :: nat where "cfgSize = 2 + 2 + NUM_COL * NUM_ROW + NUM_COL * NUM_ROW + 4"

definition cfg_version :: "byte list \<Rightarrow> uint16_t" where
  "cfg_version cfg = ucast (cfg ! 0) OR push_bit 8 (ucast (cfg ! 1))"

definition cfg_lampGlowDur :: "byte list \<Rightarrow> nat \<Rightarrow> byte" where
  "cfg_lampGlowDur cfg i = cfg ! (4 + i)"

definition cfg_lampBrightness :: "byte list \<Rightarrow> nat \<Rightarrow> byte" where
  "cfg_lampBrightness cfg i = cfg ! (4 + NUM_COL * NUM_ROW + i)"

definition cfg_crc :: "byte list \<Rightarrow> uint32_t" where
  "cfg_crc cfg = ucast (cfg ! 132) OR push_bit 8 (ucast (cfg ! 133)) OR
                 push_bit 16 (ucast (cfg ! 134)) OR push_bit 24 (ucast (cfg ! 135))"

definition store16 :: "nat \<Rightarrow> uint16_t \<Rightarrow> byte list \<Rightarrow> byte list" where
  "store16 off v cfg = cfg[off := ucast v, off + 1 := ucast (drop_bit 8 v)]"

definition store32 :: "nat \<Rightarrow> uint32_t \<Rightarrow> byte list \<Rightarrow> byte list" where
  "store32 off v cfg = cfg[off := ucast v, off + 1 := ucast (drop_bit 8 v),
                           off + 2 := ucast (drop_bit 16 v), off + 3 := ucast (drop_bit 24 v)]"

text \<open>
  \<^verbatim>\<open>applyCfg()\<close>. \<open>glowStep\<close> and \<open>maxSubcycle\<close> are the two values the loop body
  computes from the glow duration and the brightness of one lamp. The glow duration is
  widened to 32 bits, the quotient is cast to 16 bits and the product with \<^verbatim>\<open>NUM_COL\<close>
  is stored in a 16-bit table entry. The loop runs over the 64 lamps with all four
  pointers advancing together; \<open>i\<close> is the number of lamps done.
\<close>

definition glowStep :: "byte \<Rightarrow> uint16_t" where
  "glowStep d =
     (let glowDur = (ucast d :: uint32_t) * of_nat GLOWDUR_CFG_SCALE
      in if glowDur > 0
         then (ucast (65535 div ((glowDur * 1000) div of_nat ORIG_INT)) :: uint16_t) * of_nat NUM_COL
         else 0xffff)"

definition maxSubcycle :: "byte \<Rightarrow> byte \<Rightarrow> byte" where
  "maxSubcycle pinb brightness =
     (if pinb AND 0x04 \<noteq> 0
      then drop_bit (8 div ORIG_CYCLES_A - 1) brightness
      else drop_bit (8 div ORIG_CYCLES_B - 1) brightness)"

primrec applyCfg_loop ::
  "nat \<Rightarrow> nat \<Rightarrow> byte \<Rightarrow> byte list \<Rightarrow> (nat \<Rightarrow> nat \<Rightarrow> uint16_t) \<times> (nat \<Rightarrow> nat \<Rightarrow> byte)
     \<Rightarrow> (nat \<Rightarrow> nat \<Rightarrow> uint16_t) \<times> (nat \<Rightarrow> nat \<Rightarrow> byte)" where
  "applyCfg_loop 0 i pinb cfg tabs = tabs"
| "applyCfg_loop (Suc n) i pinb cfg tabs =
     applyCfg_loop n (Suc i) pinb cfg
       ((fst tabs)(i div NUM_ROW := (fst tabs (i div NUM_ROW))
           (i mod NUM_ROW := glowStep (cfg_lampGlowDur cfg i))),
        (snd tabs)(i div NUM_ROW := (snd tabs (i div NUM_ROW))
           (i mod NUM_ROW := maxSubcycle pinb (cfg_lampBrightness cfg i))))"

definition applyCfg :: "byte \<Rightarrow> state \<Rightarrow> state" where
  "applyCfg pinb s =
     (let tabs = applyCfg_loop (NUM_COL * NUM_COL) 0 pinb (sCfg s) (sGlowSteps s, sMaxSubcycle s)
      in s\<lparr>sGlowSteps := fst tabs, sMaxSubcycle := snd tabs\<rparr>)"

text \<open>
  \<^verbatim>\<open>calculateCRC32(data, length)\<close>: the inner loop over the bit mask \<open>i\<close> from 0x80 down,
  and the outer loop over the bytes.
\<close>

function crc_bits :: "uint32_t \<Rightarrow> byte \<Rightarrow> uint32_t \<Rightarrow> uint32_t" where
  "crc_bits crc c i =
     (if i > 0
      then (let b = (crc AND 0x80000000 \<noteq> 0);
                b' = (if ucast c AND i \<noteq> 0 then \<not> b else b);
                crc1 = push_bit 1 crc;
                crc2 = (if b' then crc1 XOR 0x04c11db7 else crc1)
            in crc_bits crc2 c (drop_bit 1 i))
      else crc)"
  by pat_completeness auto
termination
proof (relation "measure (\<lambda>(crc, c, i). unat i)")
  show "wf (measure (\<lambda>(crc, c, i). unat i))" by simp
next
  fix crc :: uint32_t and c :: byte and i :: uint32_t and x xa xb xc
  assume "0 < i"
  then have "0 < unat i" by (simp add: word_less_nat_alt)
  then have "unat i div 2 < unat i" by simp
  moreover have "unat (drop_bit 1 i) = unat i div 2" by (simp add: drop_bit_eq_div unat_div)
  ultimately have "unat (drop_bit 1 i) < unat i" by simp
  then show "((xc, c, drop_bit 1 i), (crc, c, i)) \<in> measure (\<lambda>(crc, c, i). unat i)"
    by simp
qed

declare crc_bits.simps [simp del]

fun calculateCRC32_loop :: "byte list \<Rightarrow> uint32_t \<Rightarrow> uint32_t" where
  "calculateCRC32_loop [] crc = crc"
| "calculateCRC32_loop (c # data) crc = calculateCRC32_loop data (crc_bits crc c 0x80)"

definition calculateCRC32 :: "byte list \<Rightarrow> uint32_t" where
  "calculateCRC32 data = calculateCRC32_loop data 0xffffffff"

text \<open>\<^verbatim>\<open>setDefaultCfg()\<close>: \<^verbatim>\<open>memset\<close>, the version, the loop over the 64 lamps, the checksum.\<close>

primrec setDefaultCfg_loop :: "nat \<Rightarrow> nat \<Rightarrow> byte list \<Rightarrow> byte list" where
  "setDefaultCfg_loop 0 i cfg = cfg"
| "setDefaultCfg_loop (Suc n) i cfg =
     setDefaultCfg_loop n (Suc i)
       (cfg[4 + i := of_nat (DEFAULT_GLOWDUR div GLOWDUR_CFG_SCALE),
            4 + NUM_COL * NUM_ROW + i := of_nat DEFAULT_BRIGHTNESS])"

definition setDefaultCfg :: "state \<Rightarrow> state" where
  "setDefaultCfg s =
     (let cfg0 = replicate cfgSize 0;
          cfg1 = store16 0 AFTERGLOW_CFG_VERSION cfg0;
          cfg2 = setDefaultCfg_loop (NUM_COL * NUM_ROW) 0 cfg1;
          crc = calculateCRC32 (take (cfgSize - 4) cfg2)
      in s\<lparr>sCfg := store32 (cfgSize - 4) crc cfg2\<rparr>)"

text \<open>
  \<^verbatim>\<open>loadCfg(&err)\<close> reads the structure from the EEPROM byte by byte and checks version
  and checksum; it returns the flag, the error code and the new state.
  \<^verbatim>\<open>saveCfgToEEPROM()\<close> writes the structure byte by byte and prints its size.
\<close>

definition loadCfg :: "state \<Rightarrow> (bool \<times> nat) \<times> state" where
  "loadCfg s =
     (let s1 = s\<lparr>sCfg := map (eeprom s) [0..<cfgSize]\<rparr>
      in if cfg_version (sCfg s1) = AFTERGLOW_CFG_VERSION
         then (if calculateCRC32 (take (cfgSize - 4) (sCfg s1)) = cfg_crc (sCfg s1)
               then ((True, 0), s1) else ((False, 2), s1))
         else ((False, 1), s1))"

definition saveCfgToEEPROM :: "state \<Rightarrow> state" where
  "saveCfgToEEPROM s =
     s\<lparr>eeprom := fold (\<lambda>i ee. ee(i := sCfg s ! i)) [0..<cfgSize] (eeprom s),
       serialOut := serialOut s @ ''EEPROM write '' @ ''136'' @ [CHR 0x0D, CHR 0x0A]\<rparr>"


text \<open>
  \<^verbatim>\<open>setup()\<close>, as far as it touches the modelled data: the matrix is cleared, the
  configuration loaded, replaced by the default and stored when the load fails, and
  applied; then the banner is printed. The pin, timer and watchdog registers are not
  modelled; \<open>efuse\<close> is the extended fuse byte the banner reports.
\<close>

definition setup_banner :: "byte \<Rightarrow> string" where
  "setup_banner efuse =
     ''afterglow v'' @ ''108'' @ '' (c) 2018 morbid cornflakes'' @ [CHR 0x0D, CHR 0x0A] @
     ''-----------------------------------------------'' @ [CHR 0x0D, CHR 0x0A] @
     ''efuse BOD '' @
     (let bodBits = efuse AND 0x7
      in if bodBits = 0x07 then ''OFF'' else if bodBits = 0x04 then ''4.3V''
         else if bodBits = 0x05 then ''2.7V'' else ''1.8V'') @ [CHR 0x0D, CHR 0x0A]"

definition arduino_setup :: "byte \<Rightarrow> byte \<Rightarrow> state \<Rightarrow> state" where
  "arduino_setup pinb efuse s =
     (let s1 = s\<lparr>sMatrixState := (\<lambda>c r. 0)\<rparr>;
          (res, s2) = loadCfg s1;
          cfgLoaded = fst res;
          s3 = (if cfgLoaded = False then saveCfgToEEPROM (setDefaultCfg s2) else s2);
          s4 = applyCfg pinb s3
      in s4\<lparr>serialOut := serialOut s4 @ setup_banner efuse\<rparr>)"

text \<open>
  \<^verbatim>\<open>receiveCfg()\<close>. \<open>arrivals\<close> lists the bytes that reach the receive buffer during
  each successive \<^verbatim>\<open>delay(200)\<close>; after the end of the list nothing arrives any more.
  \<open>receiveCfg_read\<close> is the inner loop, which takes bytes from the receive buffer while
  there are some, fewer than \<^verbatim>\<open>AG_CMD_WRITE_BUF\<close> have been read in this round and the
  structure is not full. \<open>receiveCfg_wait\<close> is the outer loop \<^verbatim>\<open>while (size < cfgSize)\<close>,
  which has no other exit: it is a partial function, and \<open>None\<close> says that the loop
  never ends. \<open>cfg\<close> holds the bytes stored in the local structure so far.
\<close>

fun receiveCfg_read :: "nat \<Rightarrow> byte list \<Rightarrow> byte list \<Rightarrow> byte list \<times> byte list" where
  "receiveCfg_read readBytes [] cfg = ([], cfg)"
| "receiveCfg_read readBytes (b # avail) cfg =
     (if readBytes < AG_CMD_WRITE_BUF \<and> length cfg < cfgSize
      then receiveCfg_read (Suc readBytes) avail (cfg @ [b])
      else (b # avail, cfg))"

partial_function (option) receiveCfg_wait ::
  "byte list list \<Rightarrow> byte list \<Rightarrow> state \<Rightarrow> (byte list \<times> state) option" where
  "receiveCfg_wait arrivals cfg s =
     (if length cfg < cfgSize
      then (let s1 = s\<lparr>serialOut := serialOut s @ AG_CMD_CFG_DATA_READY,
                         serialIn := serialIn s @ (case arrivals of [] \<Rightarrow> [] | a # _ \<Rightarrow> a)\<rparr>;
                (avail, cfg1) = receiveCfg_read 0 (serialIn s1) cfg
            in receiveCfg_wait (tl arrivals) cfg1 (s1\<lparr>serialIn := avail\<rparr>))
      else Some (cfg, s))"

definition receiveCfg :: "byte \<Rightarrow> byte list list \<Rightarrow> state \<Rightarrow> state option" where
  "receiveCfg pinb arrivals s =
     (case receiveCfg_wait arrivals [] s of
        None \<Rightarrow> None
      | Some (cfg, s1) \<Rightarrow>
          (let (res, s2) =
                 (if length cfg = cfgSize
                  then (if calculateCRC32 (take (length cfg - 4) cfg) = cfg_crc cfg
                        then (True, saveCfgToEEPROM (applyCfg pinb (s1\<lparr>sCfg := cfg\<rparr>)))
                        else (False, s1))
                  else (False, s1))
           in Some (s2\<lparr>serialOut := serialOut s2 @ (if res then AG_CMD_ACK else AG_CMD_NACK)\<rparr>)))"

text \<open>
  Two states agree on the configuration, the tables derived from it, the stored copy
  and the lamp matrix.
\<close>

definition same_cfg :: "state \<Rightarrow> state \<Rightarrow> bool" where
  "same_cfg s s' \<longleftrightarrow>
     sCfg s' = sCfg s \<and> sGlowSteps s' = sGlowSteps s \<and> sMaxSubcycle s' = sMaxSubcycle s \<and>
     eeprom s' = eeprom s \<and> sMatrixState s' = sMatrixState s"

section \<open>Properties of the integrator\<close>

lemma uint_updateMx_on: "uint (updateMx mx True step) = min 65535 (uint mx + uint step)"
proof -
  have b: "uint mx < 65536" "uint step < 65536"
    using uint_bounded [of mx] uint_bounded [of step] by simp_all
  show ?thesis
  proof (cases "uint mx < 65535 - uint step")
    case True
    then have "uint (mx + step) = uint mx + uint step"
      using b by (simp add: uint_word_ariths uint_ge_0)
    with True show ?thesis by (simp add: updateMx_def)
  next
    case False
    then show ?thesis by (simp add: updateMx_def)
  qed
qed

lemma uint_updateMx_off: "uint (updateMx mx False step) = max 0 (uint mx - uint step)"
proof (cases "mx > step")
  case True
  then have "uint (mx - step) = uint mx - uint step"
    by (simp add: uint_sub_if' word_less_def word_le_def)
  with True show ?thesis by (simp add: updateMx_def word_less_def)
next
  case False
  then show ?thesis by (simp add: updateMx_def word_less_def)
qed

lemma uint_updates_on:
  "uint (updates step (replicate k True) mx) = min 65535 (uint mx + int k * uint step)"
proof (induction k arbitrary: mx)
  case 0
  have "uint mx < 65536" using uint_bounded [of mx] by simp
  then show ?case by simp
next
  case (Suc k)
  have nn: "0 \<le> int k * uint step" by simp
  have "min 65535 (min 65535 a + b) = min 65535 (a + b)" if "0 \<le> b" for a b :: int
    using that by arith
  from this [OF nn] show ?case
    by (simp add: Suc.IH uint_updateMx_on algebra_simps)
qed

lemma uint_updates_off:
  "uint (updates step (replicate k False) mx) = max 0 (uint mx - int k * uint step)"
proof (induction k arbitrary: mx)
  case 0
  show ?case by simp
next
  case (Suc k)
  have nn: "0 \<le> int k * uint step" by simp
  have "max 0 (max 0 a - b) = max 0 (a - b)" if "0 \<le> b" for a b :: int
    using that by arith
  from this [OF nn] show ?case
    by (simp add: Suc.IH uint_updateMx_off algebra_simps)
qed

lemma saturation_updates_reach:
  assumes "step \<noteq> 0"
  shows "65535 \<le> int (saturation_updates step + k) * uint step"
proof -
  let ?s = "unat step"
  have pos: "0 < ?s" using assms by (simp add: unat_gt_0)
  let ?a = "65535 + ?s - 1"
  let ?q = "?a div ?s"
  have "?q * ?s + ?a mod ?s = ?a" by (rule div_mult_mod_eq)
  moreover have "?a mod ?s < ?s" using pos by (rule mod_less_divisor)
  ultimately have "65535 \<le> ?q * ?s" by linarith
  also have "\<dots> \<le> (?q + k) * ?s" by simp
  finally have "65535 \<le> (saturation_updates step + k) * ?s"
    by (simp add: saturation_updates_def)
  then have "int 65535 \<le> int ((saturation_updates step + k) * ?s)"
    by (simp only: of_nat_le_iff)
  then show ?thesis by simp
qed

lemma updateCol_rows_eq:
  "updateCol_rows n r0 col rowMask steps mx c r =
     (if c = col \<and> r0 \<le> r \<and> r < r0 + n
      then updateMx (mx c r) (bit rowMask (r - r0)) (steps c r) else mx c r)"
proof (induction n arbitrary: r0 rowMask mx)
  case 0
  show ?case by auto
next
  case (Suc n)
  have b0: "(rowMask AND 1 \<noteq> 0) = bit rowMask 0"
    by (simp add: and_one_eq bit_0 mod_2_eq_odd)
  have sh: "bit (drop_bit (Suc 0) rowMask) (r - Suc r0) = bit rowMask (r - r0)" if "Suc r0 \<le> r"
  proof -
    have "Suc (r - Suc r0) = r - r0" using that by simp
    then show ?thesis by (simp add: bit_drop_bit_eq)
  qed
  show ?case
    by (auto simp add: Suc.IH b0 sh)
qed


lemma sMatrixState_updateCol:
  "sMatrixState (updateCol col rowMask s) c r =
     (if unat col < NUM_COL \<and> c = unat col \<and> r < NUM_ROW
      then updateMx (sMatrixState s c r) (bit rowMask r) (sGlowSteps s c r)
      else sMatrixState s c r)"
  by (simp add: updateCol_def updateCol_rows_eq)

lemma updateCol_other_fields:
  "sGlowSteps (updateCol col rowMask s) = sGlowSteps s"
  by (simp add: updateCol_def)

lemma updateMx_saturated_on: "updateMx 0xffff True step = 0xffff"
  by (simp add: updateMx_def)

lemma updateMx_saturated_off: "updateMx 0 False step = 0"
  by (simp add: updateMx_def)

text \<open>
  C4. For every step \<open>S \<ge> 1\<close>: from 0, \<open>ceil (65535 / S)\<close> consecutive on-updates
  bring the counter to 65535, and any further on-updates leave it there; from 65535, the
  same number of consecutive off-updates bring it to 0, and any further off-updates
  leave it there. No single update wraps: an on-update adds the step and stops at
  65535, an off-update subtracts it and stops at 0, whatever the counter holds.
\<close>

theorem updateMx_saturates_never_wraps:
  assumes "step \<noteq> 0"
  shows "updates step (replicate (saturation_updates step + k) True) 0 = 0xffff \<and>
         updates step (replicate (saturation_updates step + k) False) 0xffff = 0 \<and>
         uint (updateMx mx True step) = min 65535 (uint mx + uint step) \<and>
         uint (updateMx mx False step) = max 0 (uint mx - uint step)"
proof -
  let ?n = "saturation_updates step + k"
  have reach: "65535 \<le> int ?n * uint step"
    using assms by (rule saturation_updates_reach)
  have "uint (updates step (replicate ?n True) 0) = 65535"
    using reach by (simp add: uint_updates_on)
  then have up: "updates step (replicate ?n True) 0 = 0xffff"
    by (simp add: word_uint_eq_iff)
  have "uint (updates step (replicate ?n False) 0xffff) = 0"
    using reach by (simp add: uint_updates_off)
  then have down: "updates step (replicate ?n False) 0xffff = 0"
    by (simp add: word_uint_eq_iff)
  show ?thesis
    using up down by (simp add: uint_updateMx_on uint_updateMx_off)
qed

theorem updateMx_saturates_never_wraps_witness:
  "(655 :: uint16_t) \<noteq> 0 \<and>
   updates 655 (replicate 101 True) 0 = 0xffff \<and>
   updates 655 (replicate 101 False) 0xffff = 0 \<and>
   uint (updateMx 65000 True 655) = 65535 \<and>
   uint (updateMx 600 False 655) = 0"
proof -
  have n: "saturation_updates 655 + 0 = 101"
    by (simp add: saturation_updates_def)
  have h: "(655 :: uint16_t) \<noteq> 0" by simp
  show ?thesis
    using updateMx_saturates_never_wraps [OF h, of 0 65000]
      updateMx_saturates_never_wraps [OF h, of 0 600]
    unfolding n by simp
qed

lemma hundred_on: "updates 655 (replicate 100 True) 0 = 65500"
proof -
  have "uint (updates 655 (replicate 100 True) 0) = 65500"
    by (simp add: uint_updates_on)
  then show ?thesis by (simp add: word_uint_eq_iff)
qed

text \<open>
  C2 as stated fails: with the step 655 the counter holds 65500 after 100 on-updates
  from 0, not 65535.
\<close>

theorem hundred_updates_short_of_saturation:
  "updates 655 (replicate 100 True) 0 \<noteq> 0xffff"
  by (simp add: hundred_on)

text \<open>
  C2, amended. With the step \<open>65535 div 100 = 655\<close>, 100 consecutive on-updates bring
  a counter from 0 to \<open>100 * 655 = 65500\<close>; the 101st on-update saturates it at 65535.
  100 consecutive off-updates then bring the counter reached after the 100 on-updates
  back to exactly 0.
\<close>

theorem hundred_updates_step_655:
  "updates 655 (replicate 100 True) 0 = 65500 \<and>
   updates 655 (replicate 101 True) 0 = 0xffff \<and>
   updates 655 (replicate 100 False) (updates 655 (replicate 100 True) 0) = 0"
proof -
  have "uint (updates 655 (replicate 101 True) 0) = 65535"
    by (simp add: uint_updates_on)
  then have a: "updates 655 (replicate 101 True) 0 = 0xffff" by (simp add: word_uint_eq_iff)
  have "uint (updates 655 (replicate 100 False) 65500) = 0"
    by (simp add: uint_updates_off)
  then have b: "updates 655 (replicate 100 False) 65500 = 0" by (simp add: word_uint_eq_iff)
  show ?thesis using a b by (simp add: hundred_on)
qed

text \<open>From the saturated value, 100 off-updates with the step 655 leave 35.\<close>

lemma hundred_off_from_saturation: "updates 655 (replicate 100 False) 0xffff = 35"
proof -
  have "uint (updates 655 (replicate 100 False) 0xffff) = 35"
    by (simp add: uint_updates_off)
  then show ?thesis by (simp add: word_uint_eq_iff)
qed

text \<open>
  Repeating \<^verbatim>\<open>updateCol\<close> with one column and row mask applies, to each lamp of the
  column, the same update with the lamp's glow step each time.
\<close>

lemma updateCol_repeated:
  assumes "unat col < NUM_COL" "r < NUM_ROW"
  shows "sMatrixState ((updateCol col rowMask ^^ k) s) (unat col) r =
     updates (sGlowSteps s (unat col) r) (replicate k (bit rowMask r)) (sMatrixState s (unat col) r)"
proof (induction k arbitrary: s)
  case 0
  show ?case by simp
next
  case (Suc k)
  have "(updateCol col rowMask ^^ Suc k) s = (updateCol col rowMask ^^ k) (updateCol col rowMask s)"
    by (simp only: funpow_Suc_right o_apply)
  then show ?case
    using assms by (simp add: Suc.IH sMatrixState_updateCol updateCol_other_fields)
qed

text \<open>
  C9. A lamp of the updated column whose counter is saturated in the direction of its
  row bit (65535 and the bit commands on, or 0 and the bit commands off) keeps its
  counter when \<^verbatim>\<open>updateCol\<close> is applied with that column and row mask, once and twice.
\<close>

theorem updateCol_saturated_unchanged:
  assumes "r < NUM_ROW"
    and "(bit rowMask r \<and> sMatrixState s (unat col) r = 0xffff) \<or>
         (\<not> bit rowMask r \<and> sMatrixState s (unat col) r = 0)"
  shows "sMatrixState (updateCol col rowMask s) (unat col) r = sMatrixState s (unat col) r \<and>
         sMatrixState (updateCol col rowMask (updateCol col rowMask s)) (unat col) r
           = sMatrixState s (unat col) r"
  using assms
  by (auto simp add: sMatrixState_updateCol updateCol_other_fields
      updateMx_saturated_on updateMx_saturated_off)

theorem updateCol_saturated_unchanged_witness:
  "(0 :: nat) < NUM_ROW \<and>
   sMatrixState (updateCol 2 0x01
      ((power_on (\<lambda>i. 0))\<lparr>sMatrixState := (\<lambda>c r. if r = 0 then 0xffff else 0),
                              sGlowSteps := (\<lambda>c r. 655)\<rparr>)) 2 0 = 0xffff \<and>
   sMatrixState (updateCol 2 0x01 (updateCol 2 0x01
      ((power_on (\<lambda>i. 0))\<lparr>sMatrixState := (\<lambda>c r. if r = 0 then 0xffff else 0),
                              sGlowSteps := (\<lambda>c r. 655)\<rparr>))) 2 (Suc 0) = 0"
proof -
  let ?s = "(power_on (\<lambda>i. 0))\<lparr>sMatrixState := (\<lambda>c r. if r = 0 then 0xffff else 0),
                              sGlowSteps := (\<lambda>c r. 655)\<rparr>"
  have r: "(0 :: nat) < NUM_ROW" "Suc 0 < NUM_ROW" by (simp_all add: NUM_ROW_def)
  have on: "(bit (0x01 :: byte) (0 :: nat) \<and> sMatrixState ?s (unat (2 :: uint32_t)) 0 = 0xffff) \<or>
      (\<not> bit (0x01 :: byte) (0 :: nat) \<and> sMatrixState ?s (unat (2 :: uint32_t)) 0 = 0)"
    by simp
  have off: "(bit (0x01 :: byte) (Suc 0) \<and> sMatrixState ?s (unat (2 :: uint32_t)) (Suc 0) = 0xffff) \<or>
      (\<not> bit (0x01 :: byte) (Suc 0) \<and> sMatrixState ?s (unat (2 :: uint32_t)) (Suc 0) = 0)"
    by (simp add: bit_Suc)
  show ?thesis
    using updateCol_saturated_unchanged [OF r(1) on] updateCol_saturated_unchanged [OF r(2) off] r(1)
    by simp
qed

section \<open>Properties of the validator and the interrupt handler\<close>

lemma decodeCol_one_hot: "k < 8 \<Longrightarrow> decodeCol (2 ^ k) = (of_nat k, True)"
proof -
  assume "k < 8"
  then consider "k = 0" | "k = 1" | "k = 2" | "k = 3" | "k = 4" | "k = 5" | "k = 6" | "k = 7"
    by linarith
  then show ?thesis by cases (simp_all add: decodeCol_def)
qed

lemma decodeCol_invalid:
  "(\<forall>k<8. m \<noteq> 2 ^ k) \<Longrightarrow> decodeCol m = (8, False)"
proof -
  assume a: "\<forall>k<8. m \<noteq> 2 ^ k"
  have "m \<noteq> 1" "m \<noteq> 2" "m \<noteq> 4" "m \<noteq> 8" "m \<noteq> 16" "m \<noteq> 32" "m \<noteq> 64" "m \<noteq> 128"
    using a [rule_format, of 0] a [rule_format, of 1] a [rule_format, of 2]
      a [rule_format, of 3] a [rule_format, of 4] a [rule_format, of 5]
      a [rule_format, of 6] a [rule_format, of 7]
    by simp_all
  then show ?thesis by (simp add: decodeCol_def NUM_COL_def)
qed

text \<open>
  C5. Each of the eight one-hot column masks \<open>2 ^ k\<close> decodes to the column index
  \<open>k\<close> and leaves \<^verbatim>\<open>validInput\<close> set; every other 8-bit mask (0x00 and the masks with
  two or more bits among them) decodes to no column (\<^verbatim>\<open>NUM_COL\<close>) with \<^verbatim>\<open>validInput\<close>
  cleared, and the handler does not treat the frame as valid input in that tick.
\<close>

theorem decodeCol_one_hot_only:
  "(k < 8 \<longrightarrow> decodeCol (2 ^ k) = (of_nat k, True)) \<and>
   ((\<forall>j<8. m \<noteq> 2 ^ j) \<longrightarrow>
      decodeCol m = (of_nat NUM_COL, False) \<and>
      (inColMask_of inData = m \<longrightarrow> \<not> validInput pinb inData s))"
proof -
  have "\<not> validInput pinb inData s" if "\<forall>j<8. m \<noteq> 2 ^ j" "inColMask_of inData = m"
    using decodeCol_invalid [OF that(1)] that(2)
    by (simp add: validInput_def Let_def split: prod.splits)
  then show ?thesis
    by (simp add: decodeCol_one_hot decodeCol_invalid NUM_COL_def)
qed

theorem decodeCol_one_hot_only_witness:
  "(3 :: nat) < 8 \<and> inColMask_of 0x0300 = 0x03 \<and>
   decodeCol 0x08 = (3, True) \<and> decodeCol 0x03 = (8, False) \<and>
   \<not> validInput 0x09 0x0300 (power_on (\<lambda>i. 0))"
proof -
  have n3: "\<forall>j<8. (0x03 :: byte) \<noteq> 2 ^ j"
  proof (intro allI impI)
    fix j :: nat assume "j < 8"
    then consider "j = 0" | "j = 1" | "j = 2" | "j = 3" | "j = 4" | "j = 5" | "j = 6" | "j = 7"
      by linarith
    then show "(0x03 :: byte) \<noteq> 2 ^ j" by cases simp_all
  qed
  have c3: "inColMask_of 0x0300 = 0x03" by (simp add: inColMask_of_def)
  show ?thesis
    using decodeCol_one_hot_only [of 3 "0x03" "0x0300" "0x09" "power_on (\<lambda>i. 0)"] n3 c3
    by (simp add: NUM_COL_def)
qed

lemma isr_drive_fields:
  "sMatrixState (isr_drive pinb s) = sMatrixState s"
  "sLastColMask (isr_drive pinb s) = sLastColMask s"
  "sLastRowMask (isr_drive pinb s) = sLastRowMask s"
  "sConsistentSamples (isr_drive pinb s) = sConsistentSamples s"
  "sLastUpdColMask (isr_drive pinb s) = sLastUpdColMask s"
  "sGlowSteps (isr_drive pinb s) = sGlowSteps s"
  by (simp_all add: isr_drive_def driveLampMatrixPassThrough_def driveLampMatrix_def
      dataOutput_def Let_def split: prod.splits)

lemma updateValid_fields:
  "sMatrixState (snd (updateValid c r s)) = sMatrixState s"
  "sGlowSteps (snd (updateValid c r s)) = sGlowSteps s"
  by (simp_all add: updateValid_def Let_def)

lemma fst_updateValid:
  "fst (updateValid c r s) \<longleftrightarrow>
     c \<noteq> sLastUpdColMask s \<and> c = sLastColMask s \<and> r = sLastRowMask s"
proof -
  have "1 \<le> unat (sConsistentSamples s + 1)" if "sConsistentSamples s < 255"
  proof -
    have "unat (sConsistentSamples s) < 255" using that by (simp add: word_less_nat_alt)
    then have "unat (sConsistentSamples s + 1) = unat (sConsistentSamples s) + 1"
      by (simp add: unat_word_ariths)
    then show ?thesis by simp
  qed
  moreover have "1 \<le> unat (sConsistentSamples s)" if "\<not> sConsistentSamples s < 255"
    using that by (simp add: word_less_nat_alt)
  ultimately show ?thesis
    by (auto simp add: updateValid_def Let_def SINGLE_UPDATE_CONS_def)
qed

lemma validInput_unfold:
  "validInput pinb inData s \<longleftrightarrow>
     snd (decodeCol (inColMask_of inData)) \<and>
     fst (updateValid (inColMask_of inData) (inRowMask_of inData) (isr_drive pinb s))"
  by (simp add: validInput_def Let_def split: prod.splits)

lemma ISR_unfold:
  "ISR_TIMER1_COMPA pinb inData s =
     (let s2 = snd (updateValid (inColMask_of inData) (inRowMask_of inData) (isr_drive pinb s))
      in (if validInput pinb inData s
          then updateCol (fst (decodeCol (inColMask_of inData))) (inRowMask_of inData) s2
          else s2)
         \<lparr>sLastColMask := inColMask_of inData, sLastRowMask := inRowMask_of inData\<rparr>)"
  by (simp add: ISR_TIMER1_COMPA_def validInput_unfold Let_def split: prod.splits)

lemma validInput_iff:
  "validInput pinb inData s \<longleftrightarrow>
     snd (decodeCol (inColMask_of inData)) \<and>
     inColMask_of inData \<noteq> sLastUpdColMask s \<and>
     inColMask_of inData = sLastColMask s \<and> inRowMask_of inData = sLastRowMask s"
  by (simp add: validInput_unfold fst_updateValid isr_drive_fields)

lemma ISR_last_sample:
  "sLastColMask (ISR_TIMER1_COMPA pinb inData s) = inColMask_of inData"
  "sLastRowMask (ISR_TIMER1_COMPA pinb inData s) = inRowMask_of inData"
  by (simp_all add: ISR_unfold Let_def)

lemma inData_eq_iff:
  "inColMask_of x = inColMask_of y \<and> inRowMask_of x = inRowMask_of y \<longleftrightarrow> x = y"
proof
  assume a: "inColMask_of x = inColMask_of y \<and> inRowMask_of x = inRowMask_of y"
  then have lo: "(ucast x :: byte) = ucast y" by (simp add: inRowMask_of_def)
  have hi: "(ucast (drop_bit 8 x) :: byte) = ucast (drop_bit 8 y)" using a by (simp add: inColMask_of_def)
  show "x = y"
  proof (rule bit_word_eqI)
    fix n assume n: "n < LENGTH(16)"
    show "bit x n = bit y n"
    proof (cases "n < 8")
      case True
      have "bit (ucast x :: byte) n = bit (ucast y :: byte) n" using lo by simp
      with True show ?thesis by (simp add: bit_ucast_iff)
    next
      case False
      then have m: "n - 8 < 8" "n = (n - 8) + 8" using n by simp_all
      have "bit (ucast (drop_bit 8 x) :: byte) (n - 8) = bit (ucast (drop_bit 8 y) :: byte) (n - 8)"
        using hi by simp
      then have "bit x (8 + (n - 8)) = bit y (8 + (n - 8))"
        using m(1) by (simp add: bit_ucast_iff bit_drop_bit_eq)
      then show ?thesis using m(2) by (simp add: add.commute)
    qed
  qed
qed simp

lemma ticks_append: "ticks pinb (xs @ ys) s = ticks pinb ys (ticks pinb xs s)"
  by (induction xs arbitrary: s) simp_all

lemma accepted_nth:
  "i < length xs \<Longrightarrow> accepted pinb xs s ! i = validInput pinb (xs ! i) (ticks pinb (take i xs) s)"
proof (induction xs arbitrary: s i)
  case Nil
  then show ?case by simp
next
  case (Cons x xs)
  then show ?case by (cases i) simp_all
qed

lemma ticks_last_sample:
  "i < length xs \<Longrightarrow>
     sLastColMask (ticks pinb (take (Suc i) xs) s) = inColMask_of (xs ! i) \<and>
     sLastRowMask (ticks pinb (take (Suc i) xs) s) = inRowMask_of (xs ! i)"
proof -
  assume i: "i < length xs"
  then have "take (Suc i) xs = take i xs @ [xs ! i]" by (rule take_Suc_conv_app_nth)
  then show ?thesis by (simp add: ticks_append ISR_last_sample)
qed

lemma sLastUpdColMask_ISR:
  "sLastUpdColMask (ISR_TIMER1_COMPA pinb inData s) =
     (if fst (updateValid (inColMask_of inData) (inRowMask_of inData) (isr_drive pinb s))
      then inColMask_of inData else sLastUpdColMask s)"
  by (simp add: ISR_unfold Let_def updateCol_def updateValid_def isr_drive_fields)

text \<open>
  While the frames keep the column mask that the validator accepted last, none of them
  is accepted, however long the run and whatever their row bits.
\<close>

lemma repeated_column_never_accepted:
  "\<forall>x \<in> set xs. inColMask_of x = sLastUpdColMask s \<Longrightarrow>
     accepted pinb xs s = replicate (length xs) False"
proof (induction xs arbitrary: s)
  case Nil
  show ?case by simp
next
  case (Cons x xs)
  have x: "inColMask_of x = sLastUpdColMask s" using Cons.prems by simp
  have keep: "sLastUpdColMask (ISR_TIMER1_COMPA pinb x s) = sLastUpdColMask s"
    using x by (simp add: sLastUpdColMask_ISR fst_updateValid isr_drive_fields)
  have "accepted pinb xs (ISR_TIMER1_COMPA pinb x s) = replicate (length xs) False"
    using Cons.prems by (intro Cons.IH) (simp add: keep)
  moreover have "\<not> validInput pinb x s" using x by (simp add: validInput_iff)
  ultimately show ?case by simp
qed

text \<open>
  C6. In a tick whose frame is judged invalid (the column mask decodes to no column, or
  \<^verbatim>\<open>updateValid\<close> returns false) the local \<^verbatim>\<open>validInput\<close> is false and the whole lamp
  matrix after the handler is the matrix before it.
\<close>

theorem ISR_invalid_keeps_matrix:
  assumes "\<not> snd (decodeCol (inColMask_of inData)) \<or>
           \<not> fst (updateValid (inColMask_of inData) (inRowMask_of inData) (isr_drive pinb s))"
  shows "\<not> validInput pinb inData s \<and>
         sMatrixState (ISR_TIMER1_COMPA pinb inData s) = sMatrixState s"
proof -
  have a: "\<not> validInput pinb inData s"
    using assms by (auto simp add: validInput_unfold)
  then show ?thesis
    by (simp add: ISR_unfold Let_def updateValid_fields isr_drive_fields)
qed

theorem ISR_invalid_keeps_matrix_witness:
  "\<not> snd (decodeCol (inColMask_of 0x0300)) \<and>
   \<not> validInput 0x09 0x0300
       ((power_on (\<lambda>i. 0))\<lparr>sMatrixState := (\<lambda>c r. 1000), sGlowSteps := (\<lambda>c r. 7)\<rparr>) \<and>
   sMatrixState (ISR_TIMER1_COMPA 0x09 0x0300
       ((power_on (\<lambda>i. 0))\<lparr>sMatrixState := (\<lambda>c r. 1000), sGlowSteps := (\<lambda>c r. 7)\<rparr>))
     = (\<lambda>c r. 1000) \<and>
   snd (decodeCol (inColMask_of 0x01FE)) \<and>
   \<not> validInput 0x09 0x01FE
       ((power_on (\<lambda>i. 0))\<lparr>sMatrixState := (\<lambda>c r. 1000), sGlowSteps := (\<lambda>c r. 7)\<rparr>) \<and>
   sMatrixState (ISR_TIMER1_COMPA 0x09 0x01FE
       ((power_on (\<lambda>i. 0))\<lparr>sMatrixState := (\<lambda>c r. 1000), sGlowSteps := (\<lambda>c r. 7)\<rparr>))
     = (\<lambda>c r. 1000)"
proof -
  let ?s = "(power_on (\<lambda>i. 0))\<lparr>sMatrixState := (\<lambda>c r. 1000), sGlowSteps := (\<lambda>c r. 7)\<rparr>"
  have h: "\<not> snd (decodeCol (inColMask_of 0x0300))"
    by (simp add: decodeCol_def inColMask_of_def)
  have d: "snd (decodeCol (inColMask_of 0x01FE))"
    by (simp add: decodeCol_def inColMask_of_def)
  have u: "\<not> fst (updateValid (inColMask_of 0x01FE) (inRowMask_of 0x01FE) (isr_drive 0x09 ?s))"
    by (simp add: fst_updateValid isr_drive_fields inColMask_of_def power_on_def)
  show ?thesis
    using h d ISR_invalid_keeps_matrix [of "0x0300" "0x09" ?s, OF disjI1, OF h]
      ISR_invalid_keeps_matrix [of "0x01FE" "0x09" ?s, OF disjI2, OF u]
    by simp
qed

text \<open>
  The same frame 0x01FE on the next tick is valid input, and the handler then changes
  the matrix: the lamp of column 0 whose row bit commands on gains the glow step.
\<close>

lemma ISR_second_look_updates_matrix:
  "validInput 0x09 0x01FE (ISR_TIMER1_COMPA 0x09 0x01FE
       ((power_on (\<lambda>i. 0))\<lparr>sMatrixState := (\<lambda>c r. 1000), sGlowSteps := (\<lambda>c r. 7)\<rparr>)) \<and>
   sMatrixState (ticks 0x09 [0x01FE, 0x01FE]
       ((power_on (\<lambda>i. 0))\<lparr>sMatrixState := (\<lambda>c r. 1000), sGlowSteps := (\<lambda>c r. 7)\<rparr>)) 0 0
     = 1007"
proof -
  let ?s = "(power_on (\<lambda>i. 0))\<lparr>sMatrixState := (\<lambda>c r. 1000), sGlowSteps := (\<lambda>c r. 7)\<rparr>"
  let ?s1 = "ISR_TIMER1_COMPA 0x09 0x01FE ?s"
  have c: "inColMask_of 0x01FE = 0x01" by (simp add: inColMask_of_def)
  have r: "inRowMask_of 0x01FE = 0x01" by (simp add: inRowMask_of_def)
  have d: "decodeCol 0x01 = (0, True)" by (simp add: decodeCol_def)
  have first: "\<not> validInput 0x09 0x01FE ?s"
    by (simp add: validInput_iff c r d power_on_def)
  have u1: "sLastUpdColMask ?s1 = 0"
    by (simp add: sLastUpdColMask_ISR fst_updateValid isr_drive_fields c r power_on_def)
  have v: "validInput 0x09 0x01FE ?s1"
    by (simp add: validInput_iff ISR_last_sample u1 c r d)
  have m1: "sMatrixState ?s1 = (\<lambda>c r. 1000)" and g1: "sGlowSteps ?s1 = (\<lambda>c r. 7)"
    using first
    by (simp_all add: ISR_unfold Let_def updateValid_fields isr_drive_fields)
  have "sMatrixState (ISR_TIMER1_COMPA 0x09 0x01FE ?s1) 0 0
      = updateMx (sMatrixState ?s1 0 0) (bit (0x01 :: byte) (0 :: nat)) (sGlowSteps ?s1 0 0)"
    using v
    by (simp add: ISR_unfold [of _ _ ?s1] Let_def c r d sMatrixState_updateCol
        updateValid_fields isr_drive_fields NUM_COL_def NUM_ROW_def)
  then have "sMatrixState (ISR_TIMER1_COMPA 0x09 0x01FE ?s1) 0 0 = 1007"
    by (simp add: m1 g1 updateMx_def)
  then show ?thesis using v by simp
qed

text \<open>
  C3 as stated fails in its second part. With \<^verbatim>\<open>PINB = 0x09\<close> (test jumper open,
  afterglow mode) and from the state at reset: after the frame 0x01FF (column 0) has
  been accepted, the frame 0x0100 (the same column with other row bits) arrives on four
  consecutive ticks and is accepted on none of them.
\<close>

theorem debounce_lockout_same_column:
  "accepted 0x09 [0x01FF, 0x01FF, 0x0100, 0x0100, 0x0100, 0x0100] (power_on (\<lambda>i. 0))
     = [False, True, False, False, False, False]"
  by (simp add: validInput_iff sLastUpdColMask_ISR ISR_last_sample fst_updateValid
      isr_drive_fields decodeCol_def inColMask_of_def inRowMask_of_def power_on_def)

text \<open>
  \<^verbatim>\<open>sLastUpdColMask\<close> also takes a column mask that is not one-hot once it is seen
  twice: after the blank mask 0x00 on two ticks, column 0 is accepted again.
\<close>

lemma debounce_blank_mask_reopens_column:
  "accepted 0x09 [0x01FF, 0x01FF, 0x00FF, 0x00FF, 0x0100, 0x0100] (power_on (\<lambda>i. 0))
     = [False, True, False, False, False, True]"
  by (simp add: validInput_iff sLastUpdColMask_ISR ISR_last_sample fst_updateValid
      isr_drive_fields decodeCol_def inColMask_of_def inRowMask_of_def power_on_def)

text \<open>
  C3, amended. For every run of ticks over frames \<open>xs\<close> from any state: a frame that
  differs from the frame of the tick before it is not handed to the integrator in its
  tick (so a single-tick glitch never is); a frame equal to the frame of the tick before
  it is handed to the integrator in its tick exactly when its column mask is one-hot
  and differs from \<^verbatim>\<open>sLastUpdColMask\<close>, the static of \<^verbatim>\<open>updateValid\<close> that holds the
  column mask it accepted last. A repeated frame whose column mask is
  \<^verbatim>\<open>sLastUpdColMask\<close> is not accepted. \<^verbatim>\<open>sLastUpdColMask\<close> changes in a tick exactly when
  the frame equals the frame of the tick before it and its column mask differs from
  \<^verbatim>\<open>sLastUpdColMask\<close>, and then takes that column mask, one-hot or not.
\<close>

theorem debounce:
  assumes "Suc i < length xs"
  shows "(xs ! Suc i \<noteq> xs ! i \<longrightarrow> \<not> accepted pinb xs s ! Suc i) \<and>
         (xs ! Suc i = xs ! i \<longrightarrow>
            (accepted pinb xs s ! Suc i \<longleftrightarrow>
               snd (decodeCol (inColMask_of (xs ! i))) \<and>
               inColMask_of (xs ! i) \<noteq> sLastUpdColMask (ticks pinb (take (Suc i) xs) s))) \<and>
         sLastUpdColMask (ticks pinb (take (Suc (Suc i)) xs) s) =
           (if xs ! Suc i = xs ! i \<and>
               inColMask_of (xs ! i) \<noteq> sLastUpdColMask (ticks pinb (take (Suc i) xs) s)
            then inColMask_of (xs ! i)
            else sLastUpdColMask (ticks pinb (take (Suc i) xs) s))"
proof -
  let ?s = "ticks pinb (take (Suc i) xs) s"
  have i: "i < length xs" using assms by simp
  have acc: "accepted pinb xs s ! Suc i = validInput pinb (xs ! Suc i) ?s"
    using assms by (rule accepted_nth)
  have last: "sLastColMask ?s = inColMask_of (xs ! i)" "sLastRowMask ?s = inRowMask_of (xs ! i)"
    using ticks_last_sample [OF i] by simp_all
  have same: "inColMask_of (xs ! Suc i) = sLastColMask ?s \<and> inRowMask_of (xs ! Suc i) = sLastRowMask ?s
      \<longleftrightarrow> xs ! Suc i = xs ! i"
    unfolding last by (rule inData_eq_iff)
  have "take (Suc (Suc i)) xs = take (Suc i) xs @ [xs ! Suc i]"
    using assms by (rule take_Suc_conv_app_nth)
  then have nxt: "ticks pinb (take (Suc (Suc i)) xs) s = ISR_TIMER1_COMPA pinb (xs ! Suc i) ?s"
    by (simp add: ticks_append)
  have upd: "sLastUpdColMask (ISR_TIMER1_COMPA pinb (xs ! Suc i) ?s) =
      (if xs ! Suc i = xs ! i \<and> inColMask_of (xs ! i) \<noteq> sLastUpdColMask ?s
       then inColMask_of (xs ! i) else sLastUpdColMask ?s)"
    unfolding sLastUpdColMask_ISR fst_updateValid isr_drive_fields using same by auto
  have a: "xs ! Suc i \<noteq> xs ! i \<longrightarrow> \<not> accepted pinb xs s ! Suc i"
    unfolding acc validInput_iff using same by auto
  have b: "xs ! Suc i = xs ! i \<longrightarrow>
      (accepted pinb xs s ! Suc i \<longleftrightarrow>
         snd (decodeCol (inColMask_of (xs ! i))) \<and> inColMask_of (xs ! i) \<noteq> sLastUpdColMask ?s)"
    unfolding acc validInput_iff using same by auto
  show ?thesis
    using a b by (simp only: nxt upd)
qed

theorem debounce_witness:
  "Suc 0 < length [0x01FF, 0x01FF :: uint16_t] \<and>
   accepted 0x09 [0x01FF, 0x01FF] (power_on (\<lambda>i. 0)) ! Suc 0 \<and>
   sLastUpdColMask (ticks 0x09 [0x01FF, 0x01FF] (power_on (\<lambda>i. 0))) = 0x01 \<and>
   \<not> accepted 0x09 [0x01FF, 0x02FF] (power_on (\<lambda>i. 0)) ! Suc 0 \<and>
   sLastUpdColMask (ticks 0x09 [0x01FF, 0x02FF] (power_on (\<lambda>i. 0))) = 0x00"
proof -
  have h: "Suc 0 < length [0x01FF, 0x01FF :: uint16_t]"
    "Suc 0 < length [0x01FF, 0x02FF :: uint16_t]" by simp_all
  have u: "sLastUpdColMask (ticks 0x09 [0x01FF] (power_on (\<lambda>i. 0))) = 0"
    by (simp add: sLastUpdColMask_ISR fst_updateValid isr_drive_fields
        inColMask_of_def inRowMask_of_def power_on_def)
  have d: "snd (decodeCol (inColMask_of 0x01FF))" "inColMask_of 0x01FF = 0x01"
    by (simp_all add: decodeCol_def inColMask_of_def)
  have t: "take (Suc 0) [0x01FF, 0x01FF :: uint16_t] = [0x01FF]"
    "take (Suc 0) [0x01FF, 0x02FF :: uint16_t] = [0x01FF]"
    "take (Suc (Suc 0)) [0x01FF, 0x01FF :: uint16_t] = [0x01FF, 0x01FF]"
    "take (Suc (Suc 0)) [0x01FF, 0x02FF :: uint16_t] = [0x01FF, 0x02FF]"
    by simp_all
  have n: "[0x01FF, 0x01FF :: uint16_t] ! Suc 0 = 0x01FF" "[0x01FF, 0x01FF :: uint16_t] ! 0 = 0x01FF"
    "[0x01FF, 0x02FF :: uint16_t] ! Suc 0 = 0x02FF" "[0x01FF, 0x02FF :: uint16_t] ! 0 = 0x01FF"
    by simp_all
  have ne: "(0x02FF :: uint16_t) \<noteq> 0x01FF" by simp
  have d1: "snd (decodeCol 0x01)" by (simp add: decodeCol_def)
  show ?thesis
    using debounce [OF h(1), of "0x09" "power_on (\<lambda>i. 0)"]
      debounce [OF h(2), of "0x09" "power_on (\<lambda>i. 0)"]
    unfolding t n u d using d1 ne by simp
qed

section \<open>Properties of the output PWM driver\<close>

lemma bit_driveLampMatrix_rows:
  "n \<le> 8 \<Longrightarrow>
   bit (driveLampMatrix_rows n r0 pinb cc pMx pMs rowData) i \<longleftrightarrow>
     (if i < 8 - n then bit rowData (i + n)
      else i < 8 \<and> lamp_on pinb cc (pMx (r0 + (i - (8 - n)))) (pMs (r0 + (i - (8 - n)))))"
proof (induction n arbitrary: r0 rowData)
  case 0
  have "\<not> bit rowData i" if "\<not> i < 8"
    using that bit_imp_le_length [of rowData i] by auto
  then show ?case by auto
next
  case (Suc n)
  let ?on = "lamp_on pinb cc (pMx r0) (pMs r0)"
  let ?rd = "if ?on then drop_bit 1 rowData OR 0x80 else drop_bit 1 rowData"
  have n: "n \<le> 8" "n < 8" using Suc.prems by simp_all
  have b80: "bit (0x80 :: byte) j \<longleftrightarrow> j = 7" for j
  proof -
    have "(0x80 :: byte) = 2 ^ 7" by simp
    then show ?thesis by (simp only: bit_exp_iff) auto
  qed
  have rd: "bit ?rd j \<longleftrightarrow> (if j = 7 then ?on else bit rowData (Suc j))" for j
  proof -
    have "\<not> bit rowData 8" using bit_imp_le_length [of rowData 8] by auto
    then show ?thesis using b80 [of j] by (auto simp add: bit_or_iff bit_drop_bit_eq)
  qed
  have step: "driveLampMatrix_rows (Suc n) r0 pinb cc pMx pMs rowData
      = driveLampMatrix_rows n (Suc r0) pinb cc pMx pMs ?rd"
    by simp
  show ?case
  proof (cases "i < 8 - Suc n")
    case True
    then have "i < 8 - n" "i + n \<noteq> 7" by simp_all
    then show ?thesis
      unfolding step using True by (simp add: Suc.IH [OF n(1)] rd)
  next
    case False
    show ?thesis
    proof (cases "i = 7 - n")
      case True
      then have "i < 8 - n" "i + n = 7" "i - (8 - Suc n) = 0" "i < 8" using n by simp_all
      then show ?thesis
        unfolding step using False by (simp add: Suc.IH [OF n(1)] rd)
    next
      case f2: False
      then have a: "\<not> i < 8 - n" using False by simp
      have e: "Suc r0 + (i - (8 - n)) = r0 + (i - (8 - Suc n))" using a n by simp
      from Suc.IH [OF n(1), of "Suc r0" ?rd] a
      have "bit (driveLampMatrix_rows n (Suc r0) pinb cc pMx pMs ?rd) i =
          (i < 8 \<and> lamp_on pinb cc (pMx (Suc r0 + (i - (8 - n)))) (pMs (Suc r0 + (i - (8 - n)))))"
        by (simp only: if_False)
      then show ?thesis using False by (simp only: step e if_False)
    qed
  qed
qed

lemma filter_le_upt: "k < n \<Longrightarrow> filter (\<lambda>c. c \<le> k) [0..<n] = [0..<Suc k]"
proof (induction n)
  case 0
  then show ?case by simp
next
  case (Suc n)
  show ?case
  proof (cases "k < n")
    case True
    then show ?thesis using Suc.IH by simp
  next
    case False
    then have "k = n" using Suc.prems by simp
    moreover have "filter (\<lambda>c. c \<le> n) [0..<n] = [0..<n]" by (rule filter_True) simp
    ultimately show ?thesis by simp
  qed
qed

lemma lamp_subCycle_eq:
  "lamp_subCycle pinb mx M = min (unat mx div (65536 div ORIG_CYCLES pinb)) (unat M)"
  by (simp add: lamp_subCycle_def ORIG_CYCLES_def Let_def min_def)

lemma lamp_subCycle_less: "lamp_subCycle pinb mx M < ORIG_CYCLES pinb"
proof -
  have "unat mx < 2 ^ LENGTH(16)" by (rule unsigned_less)
  then have "unat mx < 65536" by simp
  then have "unat mx div 8192 < 8" "unat mx div 16384 < 4"
    by (simp_all add: div_less_iff_less_mult)
  then have "unat mx div (65536 div ORIG_CYCLES pinb) < ORIG_CYCLES pinb"
    by (simp add: ORIG_CYCLES_def ORIG_CYCLES_A_def ORIG_CYCLES_B_def ORIG_INT_def
        TTAG_INT_A_def TTAG_INT_B_def)
  then show ?thesis by (simp add: lamp_subCycle_eq min_def)
qed


lemma frame_at_window_tick:
  assumes "col < NUM_COL" "c < ORIG_CYCLES pinb"
    and "NUM_COL * ORIG_CYCLES pinb * Suc w \<le> 2 ^ 32"
  shows "driveLampMatrix_frame pinb (s\<lparr>sTtag := window_tick pinb w c col\<rparr>) =
     (2 ^ col, driveLampMatrix_rows NUM_ROW 0 pinb c (sMatrixState s col) (sMaxSubcycle s col) 0)"
proof -
  let ?N = "ORIG_CYCLES pinb"
  let ?t = "NUM_COL * (?N * w + c) + col"
  have "?N * w + c < ?N * Suc w" using assms(2) by simp
  then have "NUM_COL * (?N * w + c) + col < NUM_COL * (?N * Suc w)"
    using assms(1) by (simp add: NUM_COL_def)
  then have "?t < NUM_COL * ?N * Suc w" by (simp only: mult.assoc)
  then have lt: "?t < 2 ^ 32" using assms(3) by (rule less_le_trans)
  have u: "unat (window_tick pinb w c col) = ?t"
    unfolding window_tick_def unat_of_nat using lt by simp
  have m: "?t mod NUM_COL = col" using assms(1) by simp
  have d: "?t div NUM_COL = ?N * w + c" using assms(1) by (simp add: NUM_COL_def)
  have cc: "(?N * w + c) mod ?N = c" using assms(2) by simp
  have sel: "sTtag (s\<lparr>sTtag := x\<rparr>) = x" "sMatrixState (s\<lparr>sTtag := x\<rparr>) = sMatrixState s"
    "sMaxSubcycle (s\<lparr>sTtag := x\<rparr>) = sMaxSubcycle s" for x
    by simp_all
  have cyc: "(if pinb AND 0x04 \<noteq> 0 then (?N * w + c) mod ORIG_CYCLES_A
             else (?N * w + c) mod ORIG_CYCLES_B) = c"
    using cc by (cases "pinb AND 0x04 = 0") (simp_all add: ORIG_CYCLES_def)
  have pb: "(push_bit col 1 :: byte) = 2 ^ col" by (simp add: push_bit_eq_mult)
  show ?thesis
    unfolding driveLampMatrix_frame_def Let_def
    by (simp only: sel u m d cyc pb)
qed

lemma lit_subcycles_eq:
  assumes "col < NUM_COL" "r < NUM_ROW"
    and "NUM_COL * ORIG_CYCLES pinb * Suc w \<le> 2 ^ 32"
  shows "lit_subcycles pinb s w col r =
     (if sMatrixState s col r = 0 then 0
      else Suc (lamp_subCycle pinb (sMatrixState s col r) (sMaxSubcycle s col r)))"
proof -
  let ?V = "sMatrixState s col r" and ?M = "sMaxSubcycle s col r"
  have r8: "r < 8" using assms(2) by (simp add: NUM_ROW_def)
  have b: "bit (driveLampMatrix_rows NUM_ROW 0 pinb c (sMatrixState s col) (sMaxSubcycle s col) 0) r
      \<longleftrightarrow> lamp_on pinb c ?V ?M" for c
    using r8 by (simp add: NUM_ROW_def bit_driveLampMatrix_rows)
  have f: "filter (\<lambda>c. fst (driveLampMatrix_frame pinb (s\<lparr>sTtag := window_tick pinb w c col\<rparr>)) = 2 ^ col \<and>
              bit (snd (driveLampMatrix_frame pinb (s\<lparr>sTtag := window_tick pinb w c col\<rparr>))) r)
            [0..<ORIG_CYCLES pinb]
      = filter (\<lambda>c. lamp_on pinb c ?V ?M) [0..<ORIG_CYCLES pinb]"
    by (rule filter_cong [OF refl]) (simp add: frame_at_window_tick [OF assms(1) _ assms(3)] b)
  show ?thesis
  proof (cases "?V = 0")
    case True
    then show ?thesis by (simp add: lit_subcycles_def f lamp_on_def)
  next
    case False
    then have "filter (\<lambda>c. lamp_on pinb c ?V ?M) [0..<ORIG_CYCLES pinb]
        = filter (\<lambda>c. c \<le> lamp_subCycle pinb ?V ?M) [0..<ORIG_CYCLES pinb]"
      by (simp add: lamp_on_def)
    also have "\<dots> = [0..<Suc (lamp_subCycle pinb ?V ?M)]"
      by (rule filter_le_upt) (rule lamp_subCycle_less)
    finally show ?thesis using False by (simp add: lit_subcycles_def f)
  qed
qed

text \<open>
  C1, amended. In afterglow mode, for a lamp with the counter value \<open>V\<close> and the
  maximum sub-cycle \<open>M\<close>, over one full window of \<open>N\<close> sub-cycles the driver turns
  the lamp on in exactly \<open>min (V div (65536 div N)) M + 1\<close> sub-cycles when \<open>V\<close> is
  not zero, and in none when \<open>V = 0\<close>; the number never exceeds \<open>N\<close>.
\<close>

theorem pwm_lit_subcycles:
  assumes "col < NUM_COL" "r < NUM_ROW"
    and "NUM_COL * ORIG_CYCLES pinb * Suc w \<le> 2 ^ 32"
  shows "lit_subcycles pinb s w col r =
           (if sMatrixState s col r = 0 then 0
            else min (unat (sMatrixState s col r) div (65536 div ORIG_CYCLES pinb))
                     (unat (sMaxSubcycle s col r)) + 1) \<and>
         lit_subcycles pinb s w col r \<le> ORIG_CYCLES pinb"
proof -
  have "Suc (lamp_subCycle pinb (sMatrixState s col r) (sMaxSubcycle s col r)) \<le> ORIG_CYCLES pinb"
    using lamp_subCycle_less [of pinb "sMatrixState s col r" "sMaxSubcycle s col r"] by simp
  then show ?thesis
    by (simp add: lit_subcycles_eq [OF assms] lamp_subCycle_eq)
qed

theorem pwm_lit_subcycles_witness:
  "(2 :: nat) < NUM_COL \<and> (5 :: nat) < NUM_ROW \<and> NUM_COL * ORIG_CYCLES 0x0C * Suc 3 \<le> 2 ^ 32 \<and>
   lit_subcycles 0x0C ((power_on (\<lambda>i. 0))\<lparr>sMatrixState := (\<lambda>c r. 30000), sMaxSubcycle := (\<lambda>c r. 7)\<rparr>) 3 2 5 = 4 \<and>
   lit_subcycles 0x0C ((power_on (\<lambda>i. 0))\<lparr>sMatrixState := (\<lambda>c r. 30000), sMaxSubcycle := (\<lambda>c r. 2)\<rparr>) 3 2 5 = 3"
proof -
  have h: "(2 :: nat) < NUM_COL" "(5 :: nat) < NUM_ROW" "NUM_COL * ORIG_CYCLES 0x0C * Suc 3 \<le> 2 ^ 32"
    by (simp_all add: NUM_COL_def NUM_ROW_def ORIG_CYCLES_def ORIG_CYCLES_A_def ORIG_INT_def TTAG_INT_A_def)
  have n: "ORIG_CYCLES 0x0C = 8"
    by (simp add: ORIG_CYCLES_def ORIG_CYCLES_A_def ORIG_INT_def TTAG_INT_A_def)
  show ?thesis
    using h pwm_lit_subcycles [OF h, of "(power_on (\<lambda>i. 0))\<lparr>sMatrixState := (\<lambda>c r. 30000), sMaxSubcycle := (\<lambda>c r. 7)\<rparr>"]
      pwm_lit_subcycles [OF h, of "(power_on (\<lambda>i. 0))\<lparr>sMatrixState := (\<lambda>c r. 30000), sMaxSubcycle := (\<lambda>c r. 2)\<rparr>"]
    by (simp add: n)
qed

text \<open>
  C1 as stated fails at \<open>V = 0\<close>: a lamp whose counter is 0 is lit in no sub-cycle,
  while the formula of the claim gives 1.
\<close>

theorem pwm_zero_counter_never_lit:
  "lit_subcycles 0x0C ((power_on (\<lambda>i. 0))\<lparr>sMaxSubcycle := (\<lambda>c r. 7)\<rparr>) 0 0 0 = 0 \<and>
   min (unat (0 :: uint16_t) div (65536 div ORIG_CYCLES 0x0C)) (unat (7 :: byte)) + 1 = 1"
proof -
  have h: "(0 :: nat) < NUM_COL" "(0 :: nat) < NUM_ROW" "NUM_COL * ORIG_CYCLES 0x0C * Suc 0 \<le> 2 ^ 32"
    by (simp_all add: NUM_COL_def NUM_ROW_def ORIG_CYCLES_def ORIG_CYCLES_A_def ORIG_INT_def TTAG_INT_A_def)
  show ?thesis
    by (simp add: lit_subcycles_eq [OF h] power_on_def)
qed

section \<open>Properties of the derived brightness model\<close>

lemma unat_glowStep:
  assumes "d \<noteq> 0"
  shows "unat (glowStep d) = (65535 div ((unat d * 10 * 1000) div 2000) * 8) mod 65536"
proof -
  let ?n = "unat d"
  have n: "0 < ?n" "?n < 256"
    using assms unsigned_less [of d, where 'a = nat] by (simp_all add: unat_gt_0)
  have up: "unat (ucast d :: uint32_t) = ?n"
    using n by (simp add: unsigned_ucast_eq take_bit_nat_eq_self)
  let ?g = "(ucast d :: uint32_t) * of_nat GLOWDUR_CFG_SCALE"
  have g: "unat ?g = ?n * 10"
    using n by (simp add: GLOWDUR_CFG_SCALE_def unat_word_ariths up)
  have pos: "?g > 0"
    using g n by (simp add: word_less_nat_alt)
  have g1: "unat (?g * 1000) = ?n * 10 * 1000"
  proof -
    have "unat (?g * 1000) = unat ?g * unat (1000 :: uint32_t) mod 2 ^ LENGTH(32)"
      by (rule unat_word_ariths(2))
    also have "\<dots> = ?n * 10 * 1000" unfolding g using n by simp
    finally show ?thesis .
  qed
  have g2: "unat ((?g * 1000) div of_nat ORIG_INT) = (?n * 10 * 1000) div 2000"
    by (simp only: unat_div g1) (simp add: ORIG_INT_def)
  have q: "unat ((65535 :: uint32_t) div ((?g * 1000) div of_nat ORIG_INT))
      = 65535 div ((?n * 10 * 1000) div 2000)"
  proof -
    have "unat ((65535 :: uint32_t) div ((?g * 1000) div of_nat ORIG_INT))
        = unat (65535 :: uint32_t) div unat ((?g * 1000) div of_nat ORIG_INT)"
      by (rule unat_div)
    also have "\<dots> = 65535 div ((?n * 10 * 1000) div 2000)" unfolding g2 by simp
    finally show ?thesis .
  qed
  have "65535 div ((?n * 10 * 1000) div 2000) \<le> 65535" by (rule div_le_dividend)
  then have le: "65535 div ((?n * 10 * 1000) div 2000) < 65536" by simp
  have c: "unat (ucast ((65535 :: uint32_t) div ((?g * 1000) div of_nat ORIG_INT)) :: uint16_t)
      = 65535 div ((?n * 10 * 1000) div 2000)"
  proof -
    have "unat (ucast ((65535 :: uint32_t) div ((?g * 1000) div of_nat ORIG_INT)) :: uint16_t)
        = take_bit LENGTH(16) (unat ((65535 :: uint32_t) div ((?g * 1000) div of_nat ORIG_INT)))"
      by (rule unsigned_ucast_eq)
    also have "\<dots> = 65535 div ((?n * 10 * 1000) div 2000)"
      unfolding q using le by (simp add: take_bit_nat_eq_self)
    finally show ?thesis .
  qed
  have "unat (glowStep d) =
      unat ((ucast ((65535 :: uint32_t) div ((?g * 1000) div of_nat ORIG_INT)) :: uint16_t) * of_nat NUM_COL)"
    using pos by (simp add: glowStep_def Let_def)
  also have "\<dots> = (65535 div ((?n * 10 * 1000) div 2000) * 8) mod 65536"
  proof -
    let ?q = "ucast ((65535 :: uint32_t) div ((?g * 1000) div of_nat ORIG_INT)) :: uint16_t"
    have "unat (?q * of_nat NUM_COL) = unat ?q * unat (of_nat NUM_COL :: uint16_t) mod 2 ^ LENGTH(16)"
      by (rule unat_word_ariths(2))
    also have "\<dots> = (65535 div ((?n * 10 * 1000) div 2000) * 8) mod 65536"
      unfolding c by (simp add: NUM_COL_def)
    finally show ?thesis .
  qed
  finally show ?thesis .
qed



lemma applyCfg_loop_eq:
  "fst (applyCfg_loop n i0 pinb cfg tabs) c r =
     (if r < NUM_ROW \<and> i0 \<le> NUM_ROW * c + r \<and> NUM_ROW * c + r < i0 + n
      then glowStep (cfg_lampGlowDur cfg (NUM_ROW * c + r)) else fst tabs c r) \<and>
   snd (applyCfg_loop n i0 pinb cfg tabs) c r =
     (if r < NUM_ROW \<and> i0 \<le> NUM_ROW * c + r \<and> NUM_ROW * c + r < i0 + n
      then maxSubcycle pinb (cfg_lampBrightness cfg (NUM_ROW * c + r)) else snd tabs c r)"
proof (induction n arbitrary: i0 tabs)
  case 0
  show ?case by auto
next
  case (Suc n)
  let ?k = "NUM_ROW * c + r"
  let ?gs = "(fst tabs)(i0 div NUM_ROW := (fst tabs (i0 div NUM_ROW))
               (i0 mod NUM_ROW := glowStep (cfg_lampGlowDur cfg i0)))"
  let ?ms = "(snd tabs)(i0 div NUM_ROW := (snd tabs (i0 div NUM_ROW))
               (i0 mod NUM_ROW := maxSubcycle pinb (cfg_lampBrightness cfg i0)))"
  have idx: "(c = i0 div NUM_ROW \<and> r = i0 mod NUM_ROW) \<longleftrightarrow> (r < NUM_ROW \<and> ?k = i0)"
  proof
    assume "c = i0 div NUM_ROW \<and> r = i0 mod NUM_ROW"
    then show "r < NUM_ROW \<and> ?k = i0" by (simp add: NUM_ROW_def)
  next
    assume a: "r < NUM_ROW \<and> ?k = i0"
    then have "i0 div NUM_ROW = c" "i0 mod NUM_ROW = r" by (auto simp add: NUM_ROW_def)
    then show "c = i0 div NUM_ROW \<and> r = i0 mod NUM_ROW" by simp
  qed
  have g: "?gs c r = (if r < NUM_ROW \<and> ?k = i0 then glowStep (cfg_lampGlowDur cfg ?k) else fst tabs c r)"
    using idx by (cases "r < NUM_ROW \<and> ?k = i0") auto
  have m: "?ms c r = (if r < NUM_ROW \<and> ?k = i0 then maxSubcycle pinb (cfg_lampBrightness cfg ?k)
      else snd tabs c r)"
    using idx by (cases "r < NUM_ROW \<and> ?k = i0") auto
  have step: "applyCfg_loop (Suc n) i0 pinb cfg tabs = applyCfg_loop n (Suc i0) pinb cfg (?gs, ?ms)"
    by simp
  have rng: "(i0 \<le> ?k \<and> ?k < i0 + Suc n) \<longleftrightarrow> (?k = i0 \<or> (Suc i0 \<le> ?k \<and> ?k < Suc i0 + n))"
    by auto
  have ih1: "fst (applyCfg_loop n (Suc i0) pinb cfg (?gs, ?ms)) c r =
      (if r < NUM_ROW \<and> Suc i0 \<le> ?k \<and> ?k < Suc i0 + n
       then glowStep (cfg_lampGlowDur cfg ?k) else ?gs c r)"
    using Suc.IH [of "Suc i0" "(?gs, ?ms)"] by (simp only: fst_conv)
  have ih2: "snd (applyCfg_loop n (Suc i0) pinb cfg (?gs, ?ms)) c r =
      (if r < NUM_ROW \<and> Suc i0 \<le> ?k \<and> ?k < Suc i0 + n
       then maxSubcycle pinb (cfg_lampBrightness cfg ?k) else ?ms c r)"
    using Suc.IH [of "Suc i0" "(?gs, ?ms)"] by (simp only: snd_conv)
  show ?case
    unfolding step ih1 ih2 g m by auto
qed

lemma applyCfg_tables:
  assumes "c < NUM_COL" "r < NUM_ROW"
  shows "sGlowSteps (applyCfg pinb s) c r = glowStep (cfg_lampGlowDur (sCfg s) (NUM_ROW * c + r))"
    and "sMaxSubcycle (applyCfg pinb s) c r = maxSubcycle pinb (cfg_lampBrightness (sCfg s) (NUM_ROW * c + r))"
proof -
  have "NUM_ROW * c + r < NUM_COL * NUM_COL"
    using assms by (simp add: NUM_COL_def NUM_ROW_def)
  then show "sGlowSteps (applyCfg pinb s) c r = glowStep (cfg_lampGlowDur (sCfg s) (NUM_ROW * c + r))"
    and "sMaxSubcycle (applyCfg pinb s) c r = maxSubcycle pinb (cfg_lampBrightness (sCfg s) (NUM_ROW * c + r))"
    using assms(2) by (simp_all add: applyCfg_def Let_def applyCfg_loop_eq)
qed

lemma applyCfg_fields:
  "sCfg (applyCfg pinb s) = sCfg s" "eeprom (applyCfg pinb s) = eeprom s"
  "sMatrixState (applyCfg pinb s) = sMatrixState s" "serialOut (applyCfg pinb s) = serialOut s"
  by (simp_all add: applyCfg_def Let_def)

lemma glowStep_1: "glowStep 1 = 39320"
proof -
  have "unat (glowStep 1) = 39320" by (simp add: unat_glowStep)
  then show ?thesis by (simp add: word_unat_eq_iff)
qed

lemma glowStep_2: "glowStep 2 = 52424"
proof -
  have "unat (glowStep 2) = 52424" by (simp add: unat_glowStep)
  then show ?thesis by (simp add: word_unat_eq_iff)
qed

text \<open>
  C10. For a lamp whose glow-duration code \<open>d\<close> is not zero, \<^verbatim>\<open>applyCfg\<close> stores the
  glow step \<open>(65535 div ((d * 10 * 1000) div 2000)) * 8\<close> reduced modulo \<open>2 ^ 16\<close>. For
  \<open>d = 1\<close> the product is at least \<open>2 ^ 16\<close>, so the stored step wraps, and the codes
  \<open>1 < 2\<close> have stored steps \<open>glowStep 1 < glowStep 2\<close>: the shorter glow duration
  gets the smaller step.
\<close>

theorem glow_step_wraps:
  assumes "c < NUM_COL" "r < NUM_ROW"
    and "cfg_lampGlowDur (sCfg s) (NUM_ROW * c + r) = d" and "d \<noteq> 0"
  shows "unat (sGlowSteps (applyCfg pinb s) c r)
           = (65535 div ((unat d * 10 * 1000) div 2000) * 8) mod 2 ^ 16 \<and>
         2 ^ 16 \<le> 65535 div (((1 :: nat) * 10 * 1000) div 2000) * 8 \<and>
         (1 :: byte) < 2 \<and> glowStep 1 < glowStep 2"
  using assms
  by (simp add: applyCfg_tables unat_glowStep glowStep_1 glowStep_2)

theorem glow_step_wraps_witness:
  "(3 :: nat) < NUM_COL \<and> (4 :: nat) < NUM_ROW \<and>
   cfg_lampGlowDur (replicate 136 1) (NUM_ROW * 3 + 4) = 1 \<and>
   unat (sGlowSteps (applyCfg 0x0C ((power_on (\<lambda>i. 0))\<lparr>sCfg := replicate 136 1\<rparr>)) 3 4) = 39320"
proof -
  have h: "(3 :: nat) < NUM_COL" "(4 :: nat) < NUM_ROW"
    "cfg_lampGlowDur (sCfg ((power_on (\<lambda>i. 0))\<lparr>sCfg := replicate 136 1\<rparr>)) (NUM_ROW * 3 + 4) = 1"
    "(1 :: byte) \<noteq> 0"
    by (simp_all add: NUM_COL_def NUM_ROW_def cfg_lampGlowDur_def)
  show ?thesis
    using h(1-3) glow_step_wraps [OF h, of "0x0C"] by simp
qed

text \<open>
  Every step \<^verbatim>\<open>applyCfg\<close> stores for a nonzero glow duration is a multiple of 8 and the
  step for the duration 0 is 65535, so no configuration yields the step 655.
\<close>

lemma glowStep_multiple_of_8: "glowStep d \<noteq> 655"
proof (cases "d = 0")
  case True
  then show ?thesis by (simp add: glowStep_def GLOWDUR_CFG_SCALE_def)
next
  case False
  have "(8 :: nat) dvd 65536" by simp
  then have "(q * 8) mod 65536 mod 8 = (q * 8) mod 8" for q :: nat
    by (rule mod_mod_cancel)
  then have "unat (glowStep d) mod 8 = 0"
    by (simp add: unat_glowStep [OF False])
  moreover have "unat (655 :: uint16_t) mod 8 = 7" by simp
  ultimately show ?thesis by auto
qed

section \<open>Properties of the configuration store at startup\<close>

lemma length_setDefaultCfg_loop: "length (setDefaultCfg_loop n i cfg) = length cfg"
  by (induction n arbitrary: i cfg) simp_all

lemma nth_setDefaultCfg_loop:
  "i0 + n \<le> NUM_COL * NUM_ROW \<Longrightarrow> 4 + NUM_COL * NUM_ROW + i0 + n \<le> length cfg \<Longrightarrow>
     setDefaultCfg_loop n i0 cfg ! j =
       (if 4 + i0 \<le> j \<and> j < 4 + i0 + n then of_nat (DEFAULT_GLOWDUR div GLOWDUR_CFG_SCALE)
        else if 4 + NUM_COL * NUM_ROW + i0 \<le> j \<and> j < 4 + NUM_COL * NUM_ROW + i0 + n
        then of_nat DEFAULT_BRIGHTNESS else cfg ! j)"
proof (induction n arbitrary: i0 cfg)
  case 0
  show ?case by auto
next
  case (Suc n)
  let ?cfg = "cfg[4 + i0 := of_nat (DEFAULT_GLOWDUR div GLOWDUR_CFG_SCALE),
                  4 + NUM_COL * NUM_ROW + i0 := of_nat DEFAULT_BRIGHTNESS]"
  have a: "Suc i0 + n \<le> NUM_COL * NUM_ROW" "4 + NUM_COL * NUM_ROW + Suc i0 + n \<le> length ?cfg"
    using Suc.prems by simp_all
  have l: "4 + i0 < length cfg" "4 + NUM_COL * NUM_ROW + i0 < length cfg"
    using Suc.prems by simp_all
  have b: "?cfg ! j = (if j = 4 + NUM_COL * NUM_ROW + i0 then of_nat DEFAULT_BRIGHTNESS
      else if j = 4 + i0 then of_nat (DEFAULT_GLOWDUR div GLOWDUR_CFG_SCALE) else cfg ! j)"
    using l by (simp add: nth_list_update)
  have step: "setDefaultCfg_loop (Suc n) i0 cfg = setDefaultCfg_loop n (Suc i0) ?cfg" by simp
  show ?case
    unfolding step Suc.IH [OF a] b using Suc.prems(1) by auto
qed

lemma le16_roundtrip:
  "(ucast (ucast v :: byte) :: uint16_t) OR push_bit 8 (ucast (ucast (drop_bit 8 v) :: byte)) = v"
proof (rule bit_word_eqI)
  fix n assume "n < LENGTH(16)"
  then consider "n < 8" | "8 \<le> n \<and> n < 16" by fastforce
  then show "bit ((ucast (ucast v :: byte) :: uint16_t) OR
      push_bit 8 (ucast (ucast (drop_bit 8 v) :: byte))) n = bit v n"
  proof cases
    case 1
    then show ?thesis by (auto simp add: bit_simps)
  next
    case 2
    then have "8 + (n - 8) = n" "n - 8 < 8" "\<not> n < 8" by auto
    then show ?thesis using 2 by (auto simp add: bit_simps)
  qed
qed

lemma le32_roundtrip:
  "(ucast (ucast v :: byte) :: uint32_t) OR push_bit 8 (ucast (ucast (drop_bit 8 v) :: byte)) OR
     push_bit 16 (ucast (ucast (drop_bit 16 v) :: byte)) OR
     push_bit 24 (ucast (ucast (drop_bit 24 v) :: byte)) = v"
proof (rule bit_word_eqI)
  fix n assume "n < LENGTH(32)"
  then consider "n < 8" | "8 \<le> n \<and> n < 16" | "16 \<le> n \<and> n < 24" | "24 \<le> n \<and> n < 32"
    by fastforce
  then show "bit ((ucast (ucast v :: byte) :: uint32_t) OR
      push_bit 8 (ucast (ucast (drop_bit 8 v) :: byte)) OR
      push_bit 16 (ucast (ucast (drop_bit 16 v) :: byte)) OR
      push_bit 24 (ucast (ucast (drop_bit 24 v) :: byte))) n = bit v n"
  proof cases
    case 1
    then show ?thesis by (auto simp add: bit_simps)
  next
    case 2
    then have "8 + (n - 8) = n" "n - 8 < 8" "\<not> n < 8" "\<not> 16 \<le> n" by auto
    then show ?thesis using 2 by (auto simp add: bit_simps)
  next
    case 3
    then have "16 + (n - 16) = n" "n - 16 < 8" "\<not> n < 8" "\<not> n - 8 < 8" "\<not> 24 \<le> n" by auto
    then show ?thesis using 3 by (auto simp add: bit_simps)
  next
    case 4
    then have "24 + (n - 24) = n" "n - 24 < 8" "\<not> n < 8" "\<not> n - 8 < 8" "\<not> n - 16 < 8" by auto
    then show ?thesis using 4 by (auto simp add: bit_simps)
  qed
qed


lemma setDefaultCfg_cfg:
  fixes s :: state
  defines "cfg \<equiv> sCfg (setDefaultCfg s)"
  shows "length cfg = cfgSize" and "cfg_version cfg = AFTERGLOW_CFG_VERSION"
    and "i < NUM_COL * NUM_ROW \<Longrightarrow> cfg_lampGlowDur cfg i = of_nat (DEFAULT_GLOWDUR div GLOWDUR_CFG_SCALE)"
    and "i < NUM_COL * NUM_ROW \<Longrightarrow> cfg_lampBrightness cfg i = of_nat DEFAULT_BRIGHTNESS"
    and "cfg_crc cfg = calculateCRC32 (take (cfgSize - 4) cfg)"
proof -
  let ?c1 = "store16 0 AFTERGLOW_CFG_VERSION (replicate 136 0)"
  let ?c2 = "setDefaultCfg_loop (NUM_COL * NUM_ROW) 0 ?c1"
  let ?crc = "calculateCRC32 (take 132 ?c2)"
  have sz: "cfgSize = 136" by (simp add: cfgSize_def NUM_COL_def NUM_ROW_def)
  have cfg: "cfg = store32 132 ?crc ?c2"
    by (simp add: cfg_def setDefaultCfg_def Let_def sz)
  have l1: "length ?c1 = 136" by (simp add: store16_def)
  have l2: "length ?c2 = 136" by (simp only: length_setDefaultCfg_loop l1)
  have n2: "?c2 ! j =
      (if 4 \<le> j \<and> j < 68 then of_nat (DEFAULT_GLOWDUR div GLOWDUR_CFG_SCALE)
       else if 68 \<le> j \<and> j < 132 then of_nat DEFAULT_BRIGHTNESS else ?c1 ! j)" for j
    using nth_setDefaultCfg_loop [of 0 "NUM_COL * NUM_ROW" ?c1 j]
    by (simp add: l1 NUM_COL_def NUM_ROW_def)
  have n3: "cfg ! j = ?c2 ! j" if "j < 132" for j
    using that by (simp add: cfg store32_def)
  show "length cfg = cfgSize" by (simp add: cfg store32_def l2 sz)
  have "cfg ! 0 = ?c1 ! 0" "cfg ! 1 = ?c1 ! 1"
    by (simp_all add: n3 n2)
  moreover have "?c1 ! 0 = ucast AFTERGLOW_CFG_VERSION"
    "?c1 ! 1 = ucast (drop_bit 8 AFTERGLOW_CFG_VERSION)"
    by (simp_all add: store16_def)
  ultimately have "cfg ! 0 = ucast AFTERGLOW_CFG_VERSION"
    "cfg ! 1 = ucast (drop_bit 8 AFTERGLOW_CFG_VERSION)"
    by simp_all
  then show "cfg_version cfg = AFTERGLOW_CFG_VERSION"
    by (simp only: cfg_version_def le16_roundtrip)
  show "cfg_lampGlowDur cfg i = of_nat (DEFAULT_GLOWDUR div GLOWDUR_CFG_SCALE)" if "i < NUM_COL * NUM_ROW"
  proof -
    have "4 + i < 132" "4 + i < 68" using that by (simp_all add: NUM_COL_def NUM_ROW_def)
    then show ?thesis by (simp add: cfg_lampGlowDur_def n3 n2)
  qed
  show "cfg_lampBrightness cfg i = of_nat DEFAULT_BRIGHTNESS" if "i < NUM_COL * NUM_ROW"
  proof -
    have "4 + NUM_COL * NUM_ROW + i < 132" "68 \<le> 4 + NUM_COL * NUM_ROW + i"
      using that by (simp_all add: NUM_COL_def NUM_ROW_def)
    then show ?thesis by (simp add: cfg_lampBrightness_def n3 n2)
  qed
  have t: "take 132 cfg = take 132 ?c2"
    by (simp add: cfg store32_def)
  have "cfg ! 132 = ucast ?crc" "cfg ! 133 = ucast (drop_bit 8 ?crc)"
    "cfg ! 134 = ucast (drop_bit 16 ?crc)" "cfg ! 135 = ucast (drop_bit 24 ?crc)"
    by (simp_all add: cfg store32_def l2)
  then have "cfg_crc cfg = ?crc"
    by (simp only: cfg_crc_def le32_roundtrip)
  then have "cfg_crc cfg = calculateCRC32 (take 132 cfg)"
    by (simp only: t)
  then show "cfg_crc cfg = calculateCRC32 (take (cfgSize - 4) cfg)"
    by (simp add: sz)
qed

lemma setDefaultCfg_fields:
  "eeprom (setDefaultCfg s) = eeprom s" "sMatrixState (setDefaultCfg s) = sMatrixState s"
  "serialOut (setDefaultCfg s) = serialOut s"
  by (simp_all add: setDefaultCfg_def Let_def)

lemma fold_write_nth:
  "fold (\<lambda>i ee. ee(i := cfg ! i)) [0..<n] ee j = (if j < n then cfg ! j else ee j)"
  by (induction n) auto

lemma saveCfgToEEPROM_fields:
  "eeprom (saveCfgToEEPROM s) j = (if j < cfgSize then sCfg s ! j else eeprom s j)"
  "sCfg (saveCfgToEEPROM s) = sCfg s" "sMatrixState (saveCfgToEEPROM s) = sMatrixState s"
  "sGlowSteps (saveCfgToEEPROM s) = sGlowSteps s" "sMaxSubcycle (saveCfgToEEPROM s) = sMaxSubcycle s"
  "serialOut (saveCfgToEEPROM s) = serialOut s @ ''EEPROM write 136'' @ [CHR 0x0D, CHR 0x0A]"
  by (simp_all add: saveCfgToEEPROM_def fold_write_nth)

lemma loadCfg_valid_iff:
  "fst (fst (loadCfg s)) \<longleftrightarrow>
     cfg_version (map (eeprom s) [0..<cfgSize]) = AFTERGLOW_CFG_VERSION \<and>
     calculateCRC32 (take (cfgSize - 4) (map (eeprom s) [0..<cfgSize]))
       = cfg_crc (map (eeprom s) [0..<cfgSize])"
  by (simp add: loadCfg_def Let_def)

lemma loadCfg_fields:
  "sCfg (snd (loadCfg s)) = map (eeprom s) [0..<cfgSize]"
  "eeprom (snd (loadCfg s)) = eeprom s" "sMatrixState (snd (loadCfg s)) = sMatrixState s"
  "sGlowSteps (snd (loadCfg s)) = sGlowSteps s" "sMaxSubcycle (snd (loadCfg s)) = sMaxSubcycle s"
  "serialOut (snd (loadCfg s)) = serialOut s"
  by (simp_all add: loadCfg_def Let_def)

lemma eeprom_image:
  assumes "length cfg = cfgSize" "\<And>j. j < cfgSize \<Longrightarrow> ee j = cfg ! j"
  shows "map ee [0..<cfgSize] = cfg"
proof (rule nth_equalityI)
  show "length (map ee [0..<cfgSize]) = length cfg" using assms(1) by simp
next
  fix i assume "i < length (map ee [0..<cfgSize])"
  then show "map ee [0..<cfgSize] ! i = cfg ! i" using assms(2) by simp
qed


lemma arduino_setup_unfold:
  "arduino_setup pinb efuse s =
     (let s2 = snd (loadCfg (s\<lparr>sMatrixState := (\<lambda>c r. 0)\<rparr>));
          s4 = applyCfg pinb
                 (if fst (fst (loadCfg (s\<lparr>sMatrixState := (\<lambda>c r. 0)\<rparr>))) then s2
                  else saveCfgToEEPROM (setDefaultCfg s2))
      in s4\<lparr>serialOut := serialOut s4 @ setup_banner efuse\<rparr>)"
  by (simp add: arduino_setup_def Let_def split: prod.splits)

text \<open>
  C8. When the structure read from the EEPROM at startup has a version other than
  \<^verbatim>\<open>AFTERGLOW_CFG_VERSION\<close> or a checksum that does not match, the configuration after
  \<^verbatim>\<open>setup()\<close> is the default one: the right version, the default glow duration and the
  default brightness for each of the 64 lamps, and the checksum of its own first 132
  bytes. It is the active configuration (the glow steps and maximum sub-cycles of all
  lamps are derived from it) and the EEPROM holds exactly its bytes, so that loading it
  again succeeds.
\<close>

theorem startup_invalid_cfg_defaults:
  fixes s :: state and pinb efuse :: byte
  defines "s' \<equiv> arduino_setup pinb efuse s"
  assumes "cfg_version (map (eeprom s) [0..<cfgSize]) \<noteq> AFTERGLOW_CFG_VERSION \<or>
           calculateCRC32 (take (cfgSize - 4) (map (eeprom s) [0..<cfgSize]))
             \<noteq> cfg_crc (map (eeprom s) [0..<cfgSize])"
  shows "length (sCfg s') = cfgSize \<and>
         cfg_version (sCfg s') = AFTERGLOW_CFG_VERSION \<and>
         (i < NUM_COL * NUM_ROW \<longrightarrow>
            cfg_lampGlowDur (sCfg s') i = of_nat (DEFAULT_GLOWDUR div GLOWDUR_CFG_SCALE) \<and>
            cfg_lampBrightness (sCfg s') i = of_nat DEFAULT_BRIGHTNESS) \<and>
         cfg_crc (sCfg s') = calculateCRC32 (take (cfgSize - 4) (sCfg s')) \<and>
         (c < NUM_COL \<and> r < NUM_ROW \<longrightarrow>
            sGlowSteps s' c r = glowStep (of_nat (DEFAULT_GLOWDUR div GLOWDUR_CFG_SCALE)) \<and>
            sMaxSubcycle s' c r = maxSubcycle pinb (of_nat DEFAULT_BRIGHTNESS)) \<and>
         (j < cfgSize \<longrightarrow> eeprom s' j = sCfg s' ! j) \<and>
         fst (fst (loadCfg s'))"
proof -
  let ?s1 = "s\<lparr>sMatrixState := (\<lambda>c r. 0)\<rparr>"
  let ?s2 = "snd (loadCfg ?s1)"
  let ?s3 = "saveCfgToEEPROM (setDefaultCfg ?s2)"
  have inv: "\<not> fst (fst (loadCfg ?s1))"
    using assms(2) by (simp add: loadCfg_valid_iff)
  have s': "s' = (applyCfg pinb ?s3)\<lparr>serialOut := serialOut (applyCfg pinb ?s3) @ setup_banner efuse\<rparr>"
    unfolding s'_def arduino_setup_unfold using inv by (simp add: Let_def)
  let ?D = "sCfg (setDefaultCfg ?s2)"
  have cfg: "sCfg s' = ?D"
    by (simp add: s' applyCfg_fields saveCfgToEEPROM_fields)
  have ee: "eeprom s' j = (if j < cfgSize then ?D ! j else eeprom s j)" for j
    by (simp add: s' applyCfg_fields saveCfgToEEPROM_fields setDefaultCfg_fields loadCfg_fields)
  have len: "length ?D = cfgSize" by (rule setDefaultCfg_cfg)
  have ver: "cfg_version ?D = AFTERGLOW_CFG_VERSION" by (rule setDefaultCfg_cfg)
  have crc: "cfg_crc ?D = calculateCRC32 (take (cfgSize - 4) ?D)" by (rule setDefaultCfg_cfg)
  have lamps: "cfg_lampGlowDur ?D i = of_nat (DEFAULT_GLOWDUR div GLOWDUR_CFG_SCALE) \<and>
      cfg_lampBrightness ?D i = of_nat DEFAULT_BRIGHTNESS" if "i < NUM_COL * NUM_ROW" for i
    using that by (simp add: setDefaultCfg_cfg)
  have tabs: "sGlowSteps s' c r = glowStep (of_nat (DEFAULT_GLOWDUR div GLOWDUR_CFG_SCALE)) \<and>
      sMaxSubcycle s' c r = maxSubcycle pinb (of_nat DEFAULT_BRIGHTNESS)"
    if cr: "c < NUM_COL \<and> r < NUM_ROW"
  proof -
    have k: "NUM_ROW * c + r < NUM_COL * NUM_ROW"
      using cr by (simp add: NUM_COL_def NUM_ROW_def)
    have "sGlowSteps s' c r = glowStep (cfg_lampGlowDur ?D (NUM_ROW * c + r))"
      "sMaxSubcycle s' c r = maxSubcycle pinb (cfg_lampBrightness ?D (NUM_ROW * c + r))"
      using cr by (simp_all add: s' applyCfg_tables saveCfgToEEPROM_fields)
    then show ?thesis by (simp only: lamps [OF k])
  qed
  have img: "map (eeprom s') [0..<cfgSize] = ?D"
    using len by (rule eeprom_image) (simp add: ee)
  have again: "fst (fst (loadCfg s'))"
    by (simp only: loadCfg_valid_iff img ver crc)
  show ?thesis
    using len ver crc lamps tabs again by (simp add: cfg ee)
qed

theorem startup_invalid_cfg_defaults_witness:
  "cfg_version (map (eeprom (power_on (\<lambda>i. 0xff))) [0..<cfgSize]) \<noteq> AFTERGLOW_CFG_VERSION \<and>
   (5 :: nat) < NUM_COL * NUM_ROW \<and> (0 :: nat) < cfgSize \<and>
   cfg_lampGlowDur (sCfg (arduino_setup 0x0C 0x05 (power_on (\<lambda>i. 0xff)))) 5 = 14 \<and>
   cfg_lampBrightness (sCfg (arduino_setup 0x0C 0x05 (power_on (\<lambda>i. 0xff)))) 5 = 7 \<and>
   cfg_version (sCfg (arduino_setup 0x0C 0x05 (power_on (\<lambda>i. 0xff)))) = 1 \<and>
   eeprom (arduino_setup 0x0C 0x05 (power_on (\<lambda>i. 0xff))) 0
     = sCfg (arduino_setup 0x0C 0x05 (power_on (\<lambda>i. 0xff))) ! 0 \<and>
   fst (fst (loadCfg (arduino_setup 0x0C 0x05 (power_on (\<lambda>i. 0xff)))))"
proof -
  have sz: "(0 :: nat) < cfgSize" "(1 :: nat) < cfgSize"
    by (simp_all add: cfgSize_def)
  have v: "cfg_version (map (eeprom (power_on (\<lambda>i. 0xff))) [0..<cfgSize]) \<noteq> AFTERGLOW_CFG_VERSION"
    using sz by (simp add: cfg_version_def power_on_def AFTERGLOW_CFG_VERSION_def)
  have i: "(5 :: nat) < NUM_COL * NUM_ROW" by (simp add: NUM_COL_def NUM_ROW_def)
  show ?thesis
    using v i sz(1)
      startup_invalid_cfg_defaults [where s = "power_on (\<lambda>i. 0xff)" and pinb = "0x0C"
        and efuse = "0x05" and i = 5 and j = 0, OF disjI1, OF v]
    by (simp add: DEFAULT_GLOWDUR_def GLOWDUR_CFG_SCALE_def DEFAULT_BRIGHTNESS_def
        AFTERGLOW_CFG_VERSION_def)
qed

section \<open>Properties of the live configuration update\<close>

lemma receiveCfg_read_eq:
  "receiveCfg_read k avail cfg =
     (drop (min (length avail) (min (AG_CMD_WRITE_BUF - k) (cfgSize - length cfg))) avail,
      cfg @ take (min (length avail) (min (AG_CMD_WRITE_BUF - k) (cfgSize - length cfg))) avail)"
proof (induction avail arbitrary: k cfg)
  case Nil
  show ?case by simp
next
  case (Cons b avail)
  show ?case
  proof (cases "k < AG_CMD_WRITE_BUF \<and> length cfg < cfgSize")
    case True
    then have m: "min (AG_CMD_WRITE_BUF - k) (cfgSize - length cfg)
        = Suc (min (AG_CMD_WRITE_BUF - Suc k) (cfgSize - length (cfg @ [b])))"
      by auto
    show ?thesis
      using True by (simp add: Cons.IH m del: length_append)
  next
    case False
    then have "min (AG_CMD_WRITE_BUF - k) (cfgSize - length cfg) = 0" by auto
    moreover have "receiveCfg_read k (b # avail) cfg = (b # avail, cfg)"
      using False by auto
    ultimately show ?thesis by simp
  qed
qed

lemma receiveCfg_wait_Some_enough:
  assumes "receiveCfg_wait arrivals cfg s = Some y"
  shows "cfgSize \<le> length cfg + length (serialIn s) + length (concat arrivals)"
proof (rule receiveCfg_wait.raw_induct
    [where P = "\<lambda>arrivals cfg s y. cfgSize \<le> length cfg + length (serialIn s) + length (concat arrivals)",
     OF _ assms])
  fix wait :: "byte list list \<Rightarrow> byte list \<Rightarrow> state \<Rightarrow> (byte list \<times> state) option"
    and arrivals cfg s y
  assume IH: "\<And>arrivals cfg s y. wait arrivals cfg s = Some y \<Longrightarrow>
      cfgSize \<le> length cfg + length (serialIn s) + length (concat arrivals)"
  assume eq: "(if length cfg < cfgSize
      then (let s1 = s\<lparr>serialOut := serialOut s @ AG_CMD_CFG_DATA_READY,
                         serialIn := serialIn s @ (case arrivals of [] \<Rightarrow> [] | a # _ \<Rightarrow> a)\<rparr>;
                (avail, cfg1) = receiveCfg_read 0 (serialIn s1) cfg
            in wait (tl arrivals) cfg1 (s1\<lparr>serialIn := avail\<rparr>))
      else Some (cfg, s)) = Some y"
  show "cfgSize \<le> length cfg + length (serialIn s) + length (concat arrivals)"
  proof (cases "length cfg < cfgSize")
    case False
    then show ?thesis by simp
  next
    case True
    let ?a = "case arrivals of [] \<Rightarrow> [] | a # _ \<Rightarrow> a"
    let ?inb = "serialIn s @ ?a"
    let ?n = "min (length ?inb) (min (AG_CMD_WRITE_BUF - 0) (cfgSize - length cfg))"
    let ?s1 = "s\<lparr>serialOut := serialOut s @ AG_CMD_CFG_DATA_READY, serialIn := ?inb\<rparr>"
    have "wait (tl arrivals) (cfg @ take ?n ?inb) (?s1\<lparr>serialIn := drop ?n ?inb\<rparr>) = Some y"
      using eq True by (simp add: Let_def receiveCfg_read_eq)
    from IH [OF this]
    have "cfgSize \<le> length (cfg @ take ?n ?inb)
        + length (serialIn (?s1\<lparr>serialIn := drop ?n ?inb\<rparr>)) + length (concat (tl arrivals))" .
    moreover have "serialIn (?s1\<lparr>serialIn := drop ?n ?inb\<rparr>) = drop ?n ?inb" by simp
    ultimately have x: "cfgSize \<le> length cfg + length (take ?n ?inb) + length (drop ?n ?inb)
        + length (concat (tl arrivals))"
      by (simp only: length_append)
    have "length (take ?n ?inb @ drop ?n ?inb) = length ?inb"
      by (simp only: append_take_drop_id)
    then have td: "length (take ?n ?inb) + length (drop ?n ?inb) = length ?inb"
      by (simp only: length_append)
    have il: "length ?inb = length (serialIn s) + length ?a" by (simp only: length_append)
    have ac: "length ?a + length (concat (tl arrivals)) = length (concat arrivals)"
      by (cases arrivals) simp_all
    show ?thesis using x td il ac by linarith
  qed
qed

text \<open>
  C7 fails on the code for a short byte stream. When fewer bytes than the
  configuration structure holds are waiting or ever arrive, \<^verbatim>\<open>receiveCfg()\<close> does not
  return: the loop \<^verbatim>\<open>while (size < cfgSize)\<close> goes on asking for data, and neither the
  negative nor the positive acknowledge is sent.
\<close>

theorem receiveCfg_short_stream_never_returns:
  assumes "length (serialIn s) + length (concat arrivals) < cfgSize"
  shows "receiveCfg pinb arrivals s = None"
proof (cases "receiveCfg_wait arrivals [] s")
  case None
  then show ?thesis by (simp add: receiveCfg_def)
next
  case (Some y)
  from receiveCfg_wait_Some_enough [OF this] assms show ?thesis by simp
qed

theorem receiveCfg_short_stream_never_returns_witness:
  "length (serialIn (power_on (\<lambda>i. 0))) + length (concat [[1, 2, 3], [4, 5 :: byte]]) < cfgSize \<and>
   receiveCfg 0x0C [[1, 2, 3], [4, 5]] (power_on (\<lambda>i. 0)) = None"
proof -
  have h: "length (serialIn (power_on (\<lambda>i. 0))) + length (concat [[1, 2, 3], [4, 5 :: byte]]) < cfgSize"
    by (simp add: power_on_def cfgSize_def)
  show ?thesis
    using h receiveCfg_short_stream_never_returns [OF h, of "0x0C"] by simp
qed


text \<open>
  With enough bytes the loop ends, whatever the pauses between the arrivals, and the
  local structure holds the first \<open>cfgSize\<close> bytes of the stream.
\<close>

lemma receiveCfg_wait_returns:
  assumes "length cfg \<le> cfgSize"
    and "cfgSize \<le> length cfg + length (serialIn s) + length (concat arrivals)"
  shows "\<exists>s'. receiveCfg_wait arrivals cfg s
            = Some (take cfgSize (cfg @ serialIn s @ concat arrivals), s') \<and> same_cfg s s'"
  using assms
proof (induction "length arrivals + (cfgSize - length cfg)" arbitrary: arrivals cfg s
    rule: less_induct)
  case less
  show ?case
  proof (cases "length cfg < cfgSize")
    case False
    then have "length cfg = cfgSize" using less.prems(1) by simp
    then have "take cfgSize (cfg @ serialIn s @ concat arrivals) = cfg" by simp
    moreover have "receiveCfg_wait arrivals cfg s = Some (cfg, s)"
      using False by (subst receiveCfg_wait.simps) simp
    ultimately show ?thesis by (simp add: same_cfg_def)
  next
    case True
    define a where "a = (case arrivals of [] \<Rightarrow> [] | x # _ \<Rightarrow> x)"
    define inb where "inb = serialIn s @ a"
    define n where "n = min (length inb) (min (AG_CMD_WRITE_BUF - 0) (cfgSize - length cfg))"
    define s2 where "s2 = s\<lparr>serialOut := serialOut s @ AG_CMD_CFG_DATA_READY,
                            serialIn := drop n inb\<rparr>"
    define cfg1 where "cfg1 = cfg @ take n inb"
    have step: "receiveCfg_wait arrivals cfg s = receiveCfg_wait (tl arrivals) cfg1 s2"
      using True
      by (subst receiveCfg_wait.simps)
        (simp add: Let_def receiveCfg_read_eq a_def inb_def n_def s2_def cfg1_def)
    have ac: "a @ concat (tl arrivals) = concat arrivals"
      unfolding a_def by (cases arrivals) simp_all
    have n_le: "n \<le> cfgSize - length cfg" "n \<le> length inb" by (simp_all add: n_def)
    have lc: "length cfg1 = length cfg + n" using n_le(2) by (simp add: cfg1_def)
    have l1: "length cfg1 \<le> cfgSize" using True n_le(1) lc by simp
    have sel: "serialIn s2 = drop n inb" by (simp add: s2_def)
    have bytes: "cfg1 @ serialIn s2 @ concat (tl arrivals) = cfg @ serialIn s @ concat arrivals"
    proof -
      have "cfg1 @ serialIn s2 @ concat (tl arrivals)
          = cfg @ (take n inb @ drop n inb) @ concat (tl arrivals)"
        by (simp only: sel cfg1_def append_assoc)
      also have "\<dots> = cfg @ serialIn s @ (a @ concat (tl arrivals))"
        by (simp only: append_take_drop_id inb_def append_assoc)
      finally show ?thesis by (simp only: ac)
    qed
    have "length (cfg1 @ serialIn s2 @ concat (tl arrivals))
        = length (cfg @ serialIn s @ concat arrivals)"
      by (simp only: bytes)
    then have total: "cfgSize \<le> length cfg1 + length (serialIn s2) + length (concat (tl arrivals))"
      using less.prems(2) by (simp only: length_append)
    have dec: "length (tl arrivals) + (cfgSize - length cfg1) < length arrivals + (cfgSize - length cfg)"
    proof (cases arrivals)
      case (Cons x xs)
      then show ?thesis using True lc by simp
    next
      case Nil
      then have "cfgSize \<le> length cfg + length (serialIn s)" using less.prems(2) by simp
      then have "0 < length (serialIn s)" using True by linarith
      then have "0 < length inb" by (simp add: inb_def)
      then have "0 < n" using True by (simp add: n_def AG_CMD_WRITE_BUF_def)
      then show ?thesis using Nil l1 lc by simp
    qed
    from less.hyps [OF dec l1 total]
    obtain s' where r: "receiveCfg_wait (tl arrivals) cfg1 s2
        = Some (take cfgSize (cfg1 @ serialIn s2 @ concat (tl arrivals)), s')"
      and same: "same_cfg s2 s'"
      by blast
    have "same_cfg s s'" using same by (simp add: same_cfg_def s2_def)
    then show ?thesis using r by (simp only: step bytes) blast
  qed
qed

text \<open>
  The rest of C7 holds. With a full structure received, a checksum that does not match
  leaves the configuration, the derived tables and the EEPROM as they were and the
  output ends with the negative acknowledge; a checksum that matches makes the received
  structure the active configuration, derives the tables from it, stores it and the
  output ends with the acknowledge.
\<close>

lemma receiveCfg_full_stream:
  assumes "cfgSize \<le> length (serialIn s) + length (concat arrivals)"
  defines "cfg \<equiv> take cfgSize (serialIn s @ concat arrivals)"
  shows "\<exists>s'. receiveCfg pinb arrivals s = Some s' \<and>
     (if calculateCRC32 (take (cfgSize - 4) cfg) = cfg_crc cfg
      then sCfg s' = cfg \<and>
           (\<forall>c<NUM_COL. \<forall>r<NUM_ROW.
              sGlowSteps s' c r = glowStep (cfg_lampGlowDur cfg (NUM_ROW * c + r)) \<and>
              sMaxSubcycle s' c r = maxSubcycle pinb (cfg_lampBrightness cfg (NUM_ROW * c + r))) \<and>
           (\<forall>j<cfgSize. eeprom s' j = cfg ! j) \<and>
           (\<exists>out. serialOut s' = out @ AG_CMD_ACK)
      else same_cfg s s' \<and> (\<exists>out. serialOut s' = out @ AG_CMD_NACK))"
proof -
  have "length ([] :: byte list) \<le> cfgSize"
    "cfgSize \<le> length ([] :: byte list) + length (serialIn s) + length (concat arrivals)"
    using assms(1) by simp_all
  from receiveCfg_wait_returns [OF this]
  obtain s1 where w: "receiveCfg_wait arrivals [] s = Some (cfg, s1)" and same: "same_cfg s s1"
    unfolding cfg_def by auto
  have len: "length cfg = cfgSize" using assms(1) by (simp add: cfg_def)
  show ?thesis
  proof (cases "calculateCRC32 (take (cfgSize - 4) cfg) = cfg_crc cfg")
    case True
    let ?s' = "(saveCfgToEEPROM (applyCfg pinb (s1\<lparr>sCfg := cfg\<rparr>)))"
    have r: "receiveCfg pinb arrivals s = Some (?s'\<lparr>serialOut := serialOut ?s' @ AG_CMD_ACK\<rparr>)"
      using True by (simp add: receiveCfg_def w len)
    have "sGlowSteps ?s' c r = glowStep (cfg_lampGlowDur cfg (NUM_ROW * c + r)) \<and>
        sMaxSubcycle ?s' c r = maxSubcycle pinb (cfg_lampBrightness cfg (NUM_ROW * c + r))"
      if "c < NUM_COL" "r < NUM_ROW" for c r
      using that by (simp add: saveCfgToEEPROM_fields applyCfg_tables)
    moreover have "eeprom ?s' j = cfg ! j" if "j < cfgSize" for j
      using that by (simp add: saveCfgToEEPROM_fields applyCfg_fields)
    moreover have "sCfg ?s' = cfg" by (simp add: saveCfgToEEPROM_fields applyCfg_fields)
    ultimately show ?thesis using True by (simp add: r)
  next
    case False
    have r: "receiveCfg pinb arrivals s = Some (s1\<lparr>serialOut := serialOut s1 @ AG_CMD_NACK\<rparr>)"
      using False by (simp add: receiveCfg_def w len)
    have "same_cfg s (s1\<lparr>serialOut := serialOut s1 @ AG_CMD_NACK\<rparr>)"
      using same by (simp add: same_cfg_def)
    then show ?thesis using False by (simp add: r)
  qed
qed

end
